theory Spec2Isabelle
  imports Main
begin

section \<open>Data model of cryptoscheme.go\<close>

text \<open>
  Go's \<^verbatim>\<open>*big.Int\<close> is an unbounded integer: \<^typ>\<open>int\<close>. The two value structs
  \<^verbatim>\<open>PublicValue\<close> and \<^verbatim>\<open>PrivateValue\<close> wrap a single \<^verbatim>\<open>Val *big.Int\<close>; they are
  the integer they carry. A \<^verbatim>\<open>panic(err)\<close> is the left summand of a result.
\<close>

datatype error = InverseError | EntropyError

type_synonym PublicValue = int
type_synonym PrivateValue = int

record PublicKey =
  P_n :: int
  P_nn :: int
  P_g :: int

record PrivateKey =
  PublicKey :: PublicKey
  P_h :: int
  P_u :: int

record 'r paillier =
  P :: int
  Q :: int
  randomReader :: 'r

definition defaultKeySize :: int where
  "defaultKeySize = 128"


section \<open>Modular arithmetic toolkit\<close>

text \<open>
  The helpers \<^verbatim>\<open>square\<close>, \<^verbatim>\<open>inc\<close>, \<^verbatim>\<open>dec\<close>, \<^verbatim>\<open>lcm\<close>, \<^verbatim>\<open>pow\<close>, \<^verbatim>\<open>rev\<close>, \<^verbatim>\<open>l\<close> and
  \<^verbatim>\<open>bigMul\<close> are called by cryptoscheme.go but defined in a file that is not part of
  the sources at hand. Each is modelled from section 4.1 of the specification.
\<close>

text \<open>Modelled from the spec: the helper \<^verbatim>\<open>square\<close>, \<open>square(x) = x\<cdot>x\<close>.\<close>

definition square :: "int \<Rightarrow> int" where
  "square x = x * x"

text \<open>Modelled from the spec: the helper \<^verbatim>\<open>inc\<close>, \<open>inc(x) = x+1\<close>.\<close>

definition inc_big :: "int \<Rightarrow> int" where
  "inc_big x = x + 1"

text \<open>Modelled from the spec: the helper \<^verbatim>\<open>dec\<close>, \<open>dec(x) = x-1\<close>.\<close>

definition dec :: "int \<Rightarrow> int" where
  "dec x = x - 1"

text \<open>Modelled from the spec: the helper \<^verbatim>\<open>lcm\<close>, \<open>lcm(a,b) = a\<cdot>b / gcd(a,b)\<close>.\<close>

definition lcm_big :: "int \<Rightarrow> int \<Rightarrow> int" where
  "lcm_big a b = a * b div gcd a b"

text \<open>
  The extended Euclidean algorithm: \<open>egcd a b = (g, x, y)\<close> with \<open>a * x + b * y = g\<close>.
\<close>

function egcd :: "int \<Rightarrow> int \<Rightarrow> int \<times> int \<times> int" where
  "egcd a b =
     (if b = 0 then (a, 1, 0)
      else (case egcd b (a mod b) of (g, x, y) \<Rightarrow> (g, y, x - (a div b) * y)))"
  by pat_completeness auto
termination
  by (relation "measure (\<lambda>(a, b). nat \<bar>b\<bar>)") (auto simp: abs_mod_less)

declare egcd.simps [simp del]

text \<open>
  Modelled from the spec: the helper \<^verbatim>\<open>rev\<close>, "modular multiplicative inverse via
  extended Euclidean algorithm; fails with InverseError when gcd(a, mod) \<noteq> 1".
\<close>

definition rev_big :: "int \<Rightarrow> int \<Rightarrow> error + int" where
  "rev_big a m =
     (if gcd a m \<noteq> 1 then Inl InverseError
      else (case egcd a m of (g, x, y) \<Rightarrow> Inr (x mod m)))"

text \<open>
  Modelled from the spec: the helper \<^verbatim>\<open>pow\<close>, "standard modular exponentiation;
  exponent may be any non-negative integer, modulus must be positive" (section 4.1): for
  \<open>e \<ge> 0\<close> it is \<open>base\<^sup>e mod m\<close>. For a negative exponent section 4.1 says nothing. Section
  4.5 gives the result of \<^verbatim>\<open>Mul(a, k, pk)\<close>, which the source computes as
  \<^verbatim>\<open>pow(a.Val, b, key.P_nn)\<close>, as \<open>a\<^sup>k mod n\<^sup>2\<close> for a plain integer scalar \<open>k\<close>, and a negative
  power modulo \<open>m\<close> is the power of the inverse modulo \<open>m\<close> (what \<^verbatim>\<open>Exp\<close> of math/big
  computes): the model takes this reading. Where the base has no inverse there is no such
  power; the model gives 0 there, and no property below depends on that value.
\<close>

definition pow :: "int \<Rightarrow> int \<Rightarrow> int \<Rightarrow> int" where
  "pow base e m =
     (if 0 \<le> e then base ^ nat e mod m
      else (case rev_big base m of
              Inl err \<Rightarrow> 0
            | Inr ib \<Rightarrow> ib ^ nat (- e) mod m))"

text \<open>Modelled from the spec: the helper \<^verbatim>\<open>l\<close>, \<open>L(x, n) = (x - 1) / n\<close>, integer division.\<close>

definition l :: "int \<Rightarrow> int \<Rightarrow> int" where
  "l x n = (x - 1) div n"

text \<open>Modelled from the spec: the helper \<^verbatim>\<open>bigMul\<close>, \<open>modmul(a, b, mod) = (a\<cdot>b) mod mod\<close>.\<close>

definition bigMul :: "int \<Rightarrow> int \<Rightarrow> int \<Rightarrow> int" where
  "bigMul a b m = (a * b) mod m"


section \<open>The scheme\<close>

text \<open>
  \<^verbatim>\<open>GenKeypair\<close> reads the two primes stored in the instance; a failing inverse is the
  \<^verbatim>\<open>panic(err)\<close> of line 67.
\<close>

definition GenKeypair :: "'r paillier \<Rightarrow> error + PrivateKey" where
  "GenKeypair p =
     (let n = P p * Q p;
          nn = square n;
          g = inc_big n;
          h = lcm_big (dec (P p)) (dec (Q p))
      in case rev_big (l (pow g h nn) n) n of
           Inl err \<Rightarrow> Inl err
         | Inr u \<Rightarrow> Inr \<lparr>PublicKey = \<lparr>P_n = n, P_nn = nn, P_g = g\<rparr>, P_h = h, P_u = u\<rparr>)"

text \<open>
  \<^verbatim>\<open>Encrypt\<close> calls \<^verbatim>\<open>rand.Int(p.randomReader, key.P_n)\<close> of crypto/rand, which either
  fails (the \<^verbatim>\<open>panic(err)\<close> of line 84) or returns some \<open>r\<close> with \<open>0 \<le> r < n\<close>, uniformly
  drawn. The outcome of that call is the argument \<open>draw\<close>; nothing else of the receiver
  is read, and \<open>r\<close> is used as it comes.
\<close>

definition Encrypt :: "error + int \<Rightarrow> PublicKey \<Rightarrow> PrivateValue \<Rightarrow> error + PublicValue" where
  "Encrypt draw key m =
     (case draw of
        Inl err \<Rightarrow> Inl err
      | Inr r \<Rightarrow>
          (let s1 = pow (P_g key) m (P_nn key);
               s2 = pow r (P_n key) (P_nn key)
           in Inr (bigMul s1 s2 (P_nn key))))"

definition Decrypt :: "PrivateKey \<Rightarrow> PublicValue \<Rightarrow> PrivateValue" where
  "Decrypt key c =
     (let ch = pow c (P_h key) (P_nn (PublicKey key));
          lVal = l ch (P_n (PublicKey key))
      in bigMul lVal (P_u key) (P_n (PublicKey key)))"

definition Add :: "PublicValue \<Rightarrow> PublicValue \<Rightarrow> PublicKey \<Rightarrow> PublicValue" where
  "Add a b key = bigMul a b (P_nn key)"

definition Mul :: "PublicValue \<Rightarrow> int \<Rightarrow> PublicKey \<Rightarrow> PublicValue" where
  "Mul a b key = pow a b (P_nn key)"

definition Sub :: "PublicValue \<Rightarrow> PublicValue \<Rightarrow> PublicKey \<Rightarrow> error + PublicValue" where
  "Sub a b key =
     (case rev_big b (P_nn key) of
        Inl err \<Rightarrow> Inl err
      | Inr revB \<Rightarrow> Inr (bigMul a revB (P_nn key)))"

text \<open>
  The constructors call \<^verbatim>\<open>rand.Prime(reader, bits)\<close> of crypto/rand twice on the same
  reader. That library function is the parameter \<open>Prime\<close>: from the state of the reader
  and the requested bit length it gives an error or a number, and the reader's next state.
\<close>

type_synonym 'r prime_source = "'r \<Rightarrow> int \<Rightarrow> (error + int) \<times> 'r"

definition GetInstance :: "'r prime_source \<Rightarrow> 'r \<Rightarrow> int \<Rightarrow> error + 'r paillier" where
  "GetInstance Prime random keySize =
     (case Prime random keySize of
        (Inl err, _) \<Rightarrow> Inl err
      | (Inr p, random1) \<Rightarrow>
          (case Prime random1 keySize of
             (Inl err, _) \<Rightarrow> Inl err
           | (Inr q, random2) \<Rightarrow> Inr \<lparr>P = p, Q = q, randomReader = random2\<rparr>))"

definition GetDefaultInstance :: "'r prime_source \<Rightarrow> 'r \<Rightarrow> error + 'r paillier" where
  "GetDefaultInstance Prime Reader =
     (case Prime Reader defaultKeySize of
        (Inl err, _) \<Rightarrow> Inl err
      | (Inr p, Reader1) \<Rightarrow>
          (case Prime Reader1 defaultKeySize of
             (Inl err, _) \<Rightarrow> Inl err
           | (Inr q, Reader2) \<Rightarrow> Inr \<lparr>P = p, Q = q, randomReader = Reader2\<rparr>))"


section \<open>Specification predicates\<close>

text \<open>
  Primality by trial division, so that it can be decided on concrete numbers.
\<close>

definition is_prime :: "int \<Rightarrow> bool" where
  "is_prime p \<longleftrightarrow> 1 < p \<and> (\<forall>d\<in>{2..<p}. \<not> d dvd p)"

text \<open>
  A key pair is valid when \<^verbatim>\<open>GenKeypair\<close> returned it on an instance that holds two
  distinct primes.
\<close>

definition valid_keypair :: "'r paillier \<Rightarrow> PrivateKey \<Rightarrow> bool" where
  "valid_keypair inst sk \<longleftrightarrow>
     is_prime (P inst) \<and> is_prime (Q inst) \<and> P inst \<noteq> Q inst \<and> GenKeypair inst = Inr sk"

text \<open>
  The ciphertext \<open>c\<close> carries the plaintext \<open>m\<close> (an integer, read modulo \<open>n\<close>) under the
  private exponent \<open>h\<close>: raised to \<open>h\<close> it is \<open>1 + m\<cdot>h\<cdot>n\<close> modulo \<open>n\<^sup>2\<close>. Encryption
  establishes this relation, the homomorphic operations preserve it and decryption reads
  \<open>m mod n\<close> off it.
\<close>

definition encodes :: "int \<Rightarrow> int \<Rightarrow> int \<Rightarrow> int \<Rightarrow> bool" where
  "encodes n h c m \<longleftrightarrow> c ^ nat h mod (n * n) = (1 + m * h * n) mod (n * n)"


text \<open>
  The small key pair of the specification's concrete vector: the instance holding the
  primes 3 and 5, and the key pair it generates.
\<close>

definition inst35 :: "unit paillier" where
  "inst35 = \<lparr>P = 3, Q = 5, randomReader = ()\<rparr>"

definition pk35 :: PublicKey where
  "pk35 = \<lparr>P_n = 15, P_nn = 225, P_g = 16\<rparr>"

definition sk35 :: PrivateKey where
  "sk35 = \<lparr>PublicKey = pk35, P_h = 4, P_u = 4\<rparr>"


text \<open>
  \<^verbatim>\<open>(*big.Int).BitLen\<close> of math/big: the length of the absolute value in bits, 0 for 0.
\<close>

fun bit_length :: "nat \<Rightarrow> nat" where
  "bit_length n = (if n = 0 then 0 else Suc (bit_length (n div 2)))"

definition BitLen :: "int \<Rightarrow> nat" where
  "BitLen x = bit_length (nat \<bar>x\<bar>)"

text \<open>
  An entropy source for examples: the reader replays a fixed list of candidates, and
  \<^verbatim>\<open>rand.Prime\<close> on it hands out the next candidate when it has the requested bit length
  and fails otherwise.
\<close>

fun replay_Prime :: "int list prime_source" where
  "replay_Prime [] bits = (Inl EntropyError, [])"
| "replay_Prime (x # xs) bits =
     (if int (BitLen x) = bits then (Inr x, xs) else (Inl EntropyError, xs))"

declare bit_length.simps [simp del]


text \<open>
  For what happens to an instance across calls, its big integers live in a heap: a
  \<^verbatim>\<open>*big.Int\<close> is an address, the heap gives the integer at each address, and the addresses
  below \<open>used\<close> are the allocated ones. \<^verbatim>\<open>new(big.Int)\<close> takes the next address.
\<close>

type_synonym addr = nat

record heap =
  cell :: "addr \<Rightarrow> int"
  used :: addr

definition new_Int :: "int \<Rightarrow> heap \<Rightarrow> addr \<times> heap" where
  "new_Int v hp = (used hp, \<lparr>cell = (cell hp)(used hp := v), used = Suc (used hp)\<rparr>)"

text \<open>
  The struct \<^verbatim>\<open>paillier\<close> and the two key structs with their fields as the source has them,
  pointers to big integers, and the instance and the key that a heap holds at them.
\<close>

record 'r paillier_ptr =
  P_ptr :: addr
  Q_ptr :: addr
  reader :: 'r

record PublicKey_ptr =
  n_ptr :: addr
  nn_ptr :: addr
  g_ptr :: addr

record PrivateKey_ptr =
  pub_ptr :: PublicKey_ptr
  h_ptr :: addr
  u_ptr :: addr

definition inst_val :: "heap \<Rightarrow> 'r paillier_ptr \<Rightarrow> 'r paillier" where
  "inst_val hp p = \<lparr>P = cell hp (P_ptr p), Q = cell hp (Q_ptr p), randomReader = reader p\<rparr>"

definition key_val :: "heap \<Rightarrow> PrivateKey_ptr \<Rightarrow> PrivateKey" where
  "key_val hp k =
     \<lparr>PublicKey = \<lparr>P_n = cell hp (n_ptr (pub_ptr k)), P_nn = cell hp (nn_ptr (pub_ptr k)),
                    P_g = cell hp (g_ptr (pub_ptr k))\<rparr>,
      P_h = cell hp (h_ptr k), P_u = cell hp (u_ptr k)\<rparr>"

text \<open>
  Modelled from the spec: what the helpers \<^verbatim>\<open>square\<close>, \<^verbatim>\<open>inc\<close>, \<^verbatim>\<open>dec\<close>, \<^verbatim>\<open>lcm\<close>, \<^verbatim>\<open>pow\<close>,
  \<^verbatim>\<open>l\<close> and \<^verbatim>\<open>rev\<close> do to the heap. Section 4.1 has them as "pure, stateless functions"
  with "no side effects": a call reads the integers at its arguments and returns a newly
  allocated integer, and writes no integer that exists. The rest is lines 58 to 79 of the
  source: \<^verbatim>\<open>new(big.Int).Mul(p.P, p.Q)\<close> puts the product in a new integer, the fields of the
  receiver are read and never assigned, and the key holds the new integers.
\<close>

definition GenKeypair_heap :: "'r paillier_ptr \<Rightarrow> heap \<Rightarrow> (error + PrivateKey_ptr) \<times> heap" where
  "GenKeypair_heap p hp =
     (let (n, hp1) = new_Int (cell hp (P_ptr p) * cell hp (Q_ptr p)) hp;
          (nn, hp2) = new_Int (square (cell hp1 n)) hp1;
          (g, hp3) = new_Int (inc_big (cell hp2 n)) hp2;
          (dp, hp4) = new_Int (dec (cell hp3 (P_ptr p))) hp3;
          (dq, hp5) = new_Int (dec (cell hp4 (Q_ptr p))) hp4;
          (h, hp6) = new_Int (lcm_big (cell hp5 dp) (cell hp5 dq)) hp5;
          (pw, hp7) = new_Int (pow (cell hp6 g) (cell hp6 h) (cell hp6 nn)) hp6;
          (lv, hp8) = new_Int (l (cell hp7 pw) (cell hp7 n)) hp7
      in case rev_big (cell hp8 lv) (cell hp8 n) of
           Inl err \<Rightarrow> (Inl err, hp8)
         | Inr u \<Rightarrow>
             (let (ua, hp9) = new_Int u hp8
              in (Inr \<lparr>pub_ptr = \<lparr>n_ptr = n, nn_ptr = nn, g_ptr = g\<rparr>,
                       h_ptr = h, u_ptr = ua\<rparr>, hp9)))"

text \<open>
  The constructors (lines 115 to 147): \<^verbatim>\<open>rand.Prime\<close> returns a newly allocated integer, and
  the instance keeps the two pointers.
\<close>

definition GetInstance_heap ::
    "'r prime_source \<Rightarrow> 'r \<Rightarrow> int \<Rightarrow> heap \<Rightarrow> (error + 'r paillier_ptr) \<times> heap" where
  "GetInstance_heap Prime random keySize hp =
     (case Prime random keySize of
        (Inl err, _) \<Rightarrow> (Inl err, hp)
      | (Inr pv, random1) \<Rightarrow>
          (let (p, hp1) = new_Int pv hp
           in case Prime random1 keySize of
                (Inl err, _) \<Rightarrow> (Inl err, hp1)
              | (Inr qv, random2) \<Rightarrow>
                  (let (q, hp2) = new_Int qv hp1
                   in (Inr \<lparr>P_ptr = p, Q_ptr = q, reader = random2\<rparr>, hp2))))"

definition GetDefaultInstance_heap ::
    "'r prime_source \<Rightarrow> 'r \<Rightarrow> heap \<Rightarrow> (error + 'r paillier_ptr) \<times> heap" where
  "GetDefaultInstance_heap Prime Reader hp =
     (case Prime Reader defaultKeySize of
        (Inl err, _) \<Rightarrow> (Inl err, hp)
      | (Inr pv, Reader1) \<Rightarrow>
          (let (p, hp1) = new_Int pv hp
           in case Prime Reader1 defaultKeySize of
                (Inl err, _) \<Rightarrow> (Inl err, hp1)
              | (Inr qv, Reader2) \<Rightarrow>
                  (let (q, hp2) = new_Int qv hp1
                   in (Inr \<lparr>P_ptr = p, Q_ptr = q, reader = Reader2\<rparr>, hp2))))"

text \<open>
  An empty heap, and the heap and instance that construction from the primes 5 and 7 gives.
\<close>

definition heap0 :: heap where
  "heap0 = \<lparr>cell = (\<lambda>a. 0), used = 0\<rparr>"

definition inst57 :: "int list paillier_ptr" where
  "inst57 = \<lparr>P_ptr = 0, Q_ptr = 1, reader = []\<rparr>"

definition heap57 :: heap where
  "heap57 = \<lparr>cell = (\<lambda>a. 0)(0 := 5, Suc 0 := 7), used = Suc (Suc 0)\<rparr>"


section \<open>The extended Euclidean algorithm and the modular inverse\<close>

lemma egcd_bezout: "egcd a b = (g, x, y) \<Longrightarrow> a * x + b * y = g"
proof (induction a b arbitrary: g x y rule: egcd.induct)
  case (1 a b)
  show ?case
  proof (cases "b = 0")
    case True
    with "1.prems" show ?thesis by (simp add: egcd.simps)
  next
    case False
    obtain g' x' y' where e: "egcd b (a mod b) = (g', x', y')"
      by (cases "egcd b (a mod b)") auto
    from "1.IH" [OF False e] have ih: "b * x' + (a mod b) * y' = g'" .
    from "1.prems" False e have r: "g = g'" "x = y'" "y = x' - (a div b) * y'"
      by (auto simp: egcd.simps [of a b])
    have "a mod b = a - b * (a div b)"
      by (simp add: minus_mult_div_eq_mod)
    with ih have "b * x' + (a - b * (a div b)) * y' = g'" by simp
    then show ?thesis unfolding r by (simp add: algebra_simps)
  qed
qed

lemma egcd_fst: "0 \<le> a \<Longrightarrow> 0 \<le> b \<Longrightarrow> fst (egcd a b) = gcd a b"
proof (induction a b rule: egcd.induct)
  case (1 a b)
  show ?case
  proof (cases "b = 0")
    case True
    with "1.prems" show ?thesis by (simp add: egcd.simps)
  next
    case False
    with "1.prems" have "0 < b" by simp
    then have nn: "0 \<le> a mod b" by simp
    from "1.IH" [OF False "1.prems"(2) nn] have "fst (egcd b (a mod b)) = gcd b (a mod b)" .
    moreover have "fst (egcd a b) = fst (egcd b (a mod b))"
      using False by (simp add: egcd.simps [of a b] split: prod.splits)
    moreover have "gcd b (a mod b) = gcd a b"
      using gcd_red_int [of a b] by simp
    ultimately show ?thesis by simp
  qed
qed

lemma egcd_fst_pos: assumes "0 < m" shows "fst (egcd a m) = gcd a m"
proof -
  have "fst (egcd a m) = fst (egcd m (a mod m))"
    using assms by (simp add: egcd.simps [of a m] split: prod.splits)
  also have "\<dots> = gcd m (a mod m)"
    using assms by (intro egcd_fst) simp_all
  also have "\<dots> = gcd a m" using gcd_red_int [of a m] by simp
  finally show ?thesis .
qed

lemma rev_big_Inr:
  assumes "0 < m" "gcd a m = 1"
  shows "\<exists>x. rev_big a m = Inr x \<and> 0 \<le> x \<and> x < m \<and> (a * x) mod m = 1 mod m"
proof -
  obtain g x y where e: "egcd a m = (g, x, y)" by (cases "egcd a m") auto
  have g: "g = 1" using egcd_fst_pos [OF assms(1), of a] e assms(2) by simp
  from egcd_bezout [OF e] g have bz: "a * x + m * y = 1" by simp
  have "(a * (x mod m)) mod m = (a * x) mod m" by (simp add: mod_mult_right_eq)
  also have "\<dots> = (a * x + m * y) mod m" by simp
  also have "\<dots> = 1 mod m" using bz by simp
  finally have "(a * (x mod m)) mod m = 1 mod m" .
  moreover have "rev_big a m = Inr (x mod m)" using e assms(2) by (simp add: rev_big_def)
  moreover have "0 \<le> x mod m" "x mod m < m" using assms(1) by simp_all
  ultimately show ?thesis by blast
qed

lemma rev_big_Inl: "gcd a m \<noteq> 1 \<Longrightarrow> rev_big a m = Inl InverseError"
  by (simp add: rev_big_def)

lemma pow_nonneg: "0 \<le> e \<Longrightarrow> pow base e m = base ^ nat e mod m"
  by (simp add: pow_def)

lemma pow_neg:
  assumes "e < 0" "0 < m" "gcd base m = 1"
  shows "\<exists>ib. rev_big base m = Inr ib \<and> (base * ib) mod m = 1 mod m
           \<and> pow base e m = ib ^ nat (- e) mod m"
proof -
  from rev_big_Inr [OF assms(2,3)] obtain ib where
    i: "rev_big base m = Inr ib" "(base * ib) mod m = 1 mod m" by blast
  then have "pow base e m = ib ^ nat (- e) mod m" using assms(1) by (simp add: pow_def)
  with i show ?thesis by blast
qed

lemma invertible_imp_coprime:
  assumes "(b * x) mod m = (1::int)"
  shows "coprime b m"
proof (rule coprimeI)
  fix d assume "d dvd b" "d dvd m"
  then have "d dvd (b * x) mod m" by (simp add: dvd_mod)
  then show "is_unit d" using assms by simp
qed

lemma pow_coprime:
  assumes "1 < N" "coprime a N"
  shows "coprime (pow a e N) N"
proof (cases "0 \<le> e")
  case True
  have nz: "N \<noteq> 0" using assms(1) by simp
  have "coprime (a ^ nat e) N" using assms(2) by simp
  then have "coprime (a ^ nat e mod N) N" by (simp only: coprime_mod_left_iff [OF nz])
  then show ?thesis using True by (simp add: pow_nonneg)
next
  case False
  have nz: "N \<noteq> 0" using assms(1) by simp
  from assms have "e < 0" "0 < N" "gcd a N = 1"
    using False by (simp_all add: coprime_iff_gcd_eq_1 [symmetric])
  from pow_neg [OF this] obtain ib where
    i: "(a * ib) mod N = 1 mod N" "pow a e N = ib ^ nat (- e) mod N" by blast
  have "(ib * a) mod N = 1" using i(1) assms(1) by (simp add: mult.commute)
  then have "coprime ib N" by (rule invertible_imp_coprime)
  then have "coprime (ib ^ nat (- e)) N" by simp
  then have "coprime (ib ^ nat (- e) mod N) N" by (simp only: coprime_mod_left_iff [OF nz])
  then show ?thesis by (simp add: i(2))
qed


section \<open>Arithmetic modulo the square of the modulus\<close>

lemma lin_mult_dvd: "(n::int) * n dvd (1 + x * n) * (1 + y * n) - (1 + (x + y) * n)"
proof -
  have "(1 + x * n) * (1 + y * n) - (1 + (x + y) * n) = n * n * (x * y)"
    by (simp add: algebra_simps)
  then show ?thesis by simp
qed

lemma lin_mult_mod:
  assumes "a mod (n * n) = (1 + x * n) mod (n * n)" "b mod (n * n) = (1 + y * n) mod (n * n)"
  shows "(a * b) mod (n * n) = (1 + (x + y) * n) mod (n * (n::int))"
proof -
  have "(a * b) mod (n * n) = ((1 + x * n) * (1 + y * n)) mod (n * n)"
    using assms by (rule mod_mult_cong)
  also have "\<dots> = (1 + (x + y) * n) mod (n * n)"
    using lin_mult_dvd [of n x y] by (simp only: mod_eq_dvd_iff)
  finally show ?thesis .
qed

lemma lin_power_mod:
  assumes "a mod (n * n) = (1 + x * n) mod (n * (n::int))"
  shows "a ^ k mod (n * n) = (1 + int k * x * n) mod (n * n)"
proof (induction k)
  case 0
  show ?case by simp
next
  case (Suc k)
  have "(a ^ k * a) mod (n * n) = (1 + (int k * x + x) * n) mod (n * n)"
    using Suc assms by (rule lin_mult_mod)
  then show ?case by (simp add: algebra_simps)
qed

lemma lin_mod_normal:
  assumes "1 < (n::int)"
  shows "(1 + x * n) mod (n * n) = 1 + (x mod n) * n"
proof -
  have eq: "1 + x * n = (1 + (x mod n) * n) + (x div n) * (n * n)"
  proof -
    have "n * x = n * (x mod n + n * (x div n))" by simp
    also have "\<dots> = n * (x mod n) + n * (n * (x div n))" by (simp only: distrib_left)
    finally show ?thesis by (simp add: algebra_simps)
  qed
  have lo: "0 \<le> 1 + (x mod n) * n" using assms by simp
  have "x mod n \<le> n - 1" using assms by simp
  then have "(x mod n) * n \<le> (n - 1) * n" using assms by (intro mult_right_mono) simp_all
  then have hi: "1 + (x mod n) * n < n * n" using assms by (simp add: algebra_simps)
  have "(1 + x * n) mod (n * n) = (1 + (x mod n) * n) mod (n * n)"
    by (subst eq) simp
  also have "\<dots> = 1 + (x mod n) * n" using lo hi by simp
  finally show ?thesis .
qed

lemma l_lin:
  assumes "1 < (n::int)"
  shows "l ((1 + x * n) mod (n * n)) n = x mod n"
  using assms by (simp add: lin_mod_normal l_def)


section \<open>Fermat's little theorem\<close>

lemma is_prime_coprime:
  assumes "is_prime p" "\<not> p dvd a"
  shows "coprime p a"
proof -
  let ?g = "gcd p a"
  have p: "1 < p" and nd: "\<And>d. 2 \<le> d \<Longrightarrow> d < p \<Longrightarrow> \<not> d dvd p"
    using assms(1) by (auto simp: is_prime_def)
  have g0: "0 \<le> ?g" by simp
  have gp: "?g dvd p" by simp
  have "?g \<noteq> 0" using p by auto
  have "?g \<le> p" using gp p by (intro zdvd_imp_le) simp_all
  have "?g \<noteq> p" using assms(2) by (metis gcd_dvd2)
  have "\<not> 2 \<le> ?g"
    using nd [of ?g] gp \<open>?g \<le> p\<close> \<open>?g \<noteq> p\<close> by auto
  with g0 \<open>?g \<noteq> 0\<close> have "?g = 1" by linarith
  then show ?thesis by (simp only: coprime_iff_gcd_eq_1)
qed

lemma is_prime_dvd_choose:
  assumes "is_prime p" "0 < k" "k < nat p"
  shows "p dvd int (nat p choose k)"
proof -
  have p: "1 < p" using assms(1) by (simp add: is_prime_def)
  have "k * (nat p choose k) = nat p * ((nat p - 1) choose (k - 1))"
    using assms(2) by (rule times_binomial_minus1_eq)
  then have "int k * int (nat p choose k) = int (nat p) * int ((nat p - 1) choose (k - 1))"
    by (metis of_nat_mult)
  then have "p dvd int k * int (nat p choose k)" using p by simp
  moreover have "\<not> p dvd int k"
  proof
    assume "p dvd int k"
    then have "p \<le> int k" using assms(2) by (intro zdvd_imp_le) simp_all
    with assms(3) show False by linarith
  qed
  then have "coprime p (int k)" using assms(1) by (intro is_prime_coprime)
  ultimately show ?thesis by (simp add: coprime_dvd_mult_right_iff)
qed

lemma fermat_step:
  assumes "is_prime p"
  shows "p dvd (a + 1) ^ nat p - (a ^ nat p + 1)"
proof -
  have p: "1 < p" using assms by (simp add: is_prime_def)
  then have "nat p = Suc (Suc (nat p - 2))" by linarith
  then obtain m where m: "nat p = Suc (Suc m)" ..
  let ?f = "\<lambda>k. int (nat p choose k) * a ^ k"
  have "(a + 1) ^ nat p = (\<Sum>k\<le>nat p. ?f k * 1 ^ (nat p - k))"
    by (rule binomial_ring)
  also have "\<dots> = (\<Sum>k\<le>Suc (Suc m). ?f k)" by (simp add: m)
  also have "\<dots> = (\<Sum>k\<le>Suc m. ?f k) + ?f (Suc (Suc m))" by (simp only: sum.atMost_Suc)
  also have "(\<Sum>k\<le>Suc m. ?f k) = ?f 0 + (\<Sum>k\<le>m. ?f (Suc k))" by (rule sum.atMost_Suc_shift)
  finally have "(a + 1) ^ nat p = 1 + (\<Sum>k\<le>m. ?f (Suc k)) + a ^ nat p"
    by (simp add: m [symmetric])
  then have "(a + 1) ^ nat p - (a ^ nat p + 1) = (\<Sum>k\<le>m. ?f (Suc k))" by simp
  moreover have "p dvd (\<Sum>k\<le>m. ?f (Suc k))"
  proof (rule dvd_sum)
    fix k assume "k \<in> {..m}"
    then have "0 < Suc k" "Suc k < nat p" using m by simp_all
    with assms have "p dvd int (nat p choose Suc k)" by (intro is_prime_dvd_choose)
    then show "p dvd ?f (Suc k)" by (rule dvd_mult2)
  qed
  ultimately show ?thesis by simp
qed

lemma fermat_dvd:
  assumes "is_prime p" "0 \<le> a"
  shows "p dvd a ^ nat p - a"
  using assms(2)
proof (induction a rule: int_ge_induct)
  case base
  have "1 < p" using assms(1) by (simp add: is_prime_def)
  then show ?case by (simp add: zero_power)
next
  case (step a)
  have "(a + 1) ^ nat p - (a + 1) = ((a + 1) ^ nat p - (a ^ nat p + 1)) + (a ^ nat p - a)"
    by simp
  then show ?case using fermat_step [OF assms(1), of a] step.IH by (metis dvd_add)
qed

lemma fermat_little:
  assumes "is_prime p" "0 \<le> a" "\<not> p dvd a"
  shows "a ^ nat (p - 1) mod p = 1"
proof -
  have p: "1 < p" using assms(1) by (simp add: is_prime_def)
  then have "nat p = Suc (nat (p - 1))" by simp
  then have "a ^ nat p - a = a * (a ^ nat (p - 1) - 1)" by (simp add: algebra_simps)
  with fermat_dvd [OF assms(1,2)] have "p dvd a * (a ^ nat (p - 1) - 1)" by simp
  moreover have "coprime p a" using assms(1,3) by (rule is_prime_coprime)
  ultimately have "p dvd a ^ nat (p - 1) - 1" by (simp add: coprime_dvd_mult_right_iff)
  then have "a ^ nat (p - 1) mod p = 1 mod p" by (simp only: mod_eq_dvd_iff)
  then show ?thesis using p by simp
qed


section \<open>The exponent of the unit group\<close>

lemma is_prime_gt1: "is_prime p \<Longrightarrow> 1 < p"
  by (simp add: is_prime_def)

lemma is_prime_distinct_coprime:
  assumes "is_prime p" "is_prime q" "p \<noteq> q"
  shows "coprime p q"
proof (rule is_prime_coprime [OF assms(1)])
  show "\<not> p dvd q"
  proof
    assume d: "p dvd q"
    have p: "1 < p" and q: "1 < q" using assms(1,2) by (simp_all add: is_prime_def)
    from d q have "p \<le> q" by (intro zdvd_imp_le) simp_all
    with assms(3) p have "p \<in> {2..<q}" by simp
    with assms(2) d show False by (auto simp: is_prime_def)
  qed
qed

lemma lcm_big_dvd:
  assumes "0 < a" "0 < b"
  shows "a dvd lcm_big a b" "b dvd lcm_big a b" "0 < lcm_big a b"
proof -
  have e: "lcm_big a b = lcm a b"
    using assms by (simp add: lcm_big_def lcm_int_def lcm_nat_def nat_mult_distrib zdiv_int
        abs_mult gcd_int_def nat_abs_mult_distrib)
  show "a dvd lcm_big a b" "b dvd lcm_big a b" by (simp_all add: e)
  have "lcm a b \<noteq> 0" using assms by (simp add: lcm_eq_0_iff)
  moreover have "0 \<le> lcm a b" by simp
  ultimately show "0 < lcm_big a b" unfolding e by linarith
qed

lemma power_dvd_exp_mod1:
  assumes "(a::int) ^ nat e mod p = 1" "e dvd h" "0 < e" "0 \<le> h"
  shows "p dvd a ^ nat h - 1"
proof -
  from assms(2) obtain k where k: "h = e * k" ..
  with assms(3,4) have k0: "0 \<le> k" by (simp add: zero_le_mult_iff)
  have "nat h = nat e * nat k" using k assms(3) k0 by (simp add: nat_mult_distrib)
  then have "a ^ nat h = (a ^ nat e) ^ nat k" by (simp add: power_mult)
  then have "a ^ nat h mod p = (a ^ nat e mod p) ^ nat k mod p" by (simp add: power_mod)
  then have "a ^ nat h mod p = 1 mod p" using assms(1) by simp
  then show ?thesis by (simp only: mod_eq_dvd_iff)
qed

lemma carmichael_mod:
  assumes pr: "is_prime p" "is_prime q" "p \<noteq> q"
    and r: "0 \<le> r" "coprime r (p * q)"
  shows "r ^ nat (lcm_big (p - 1) (q - 1)) mod (p * q) = 1"
proof -
  let ?h = "lcm_big (p - 1) (q - 1)"
  have p: "1 < p" and q: "1 < q" using pr by (simp_all add: is_prime_gt1)
  have d: "p - 1 dvd ?h" "q - 1 dvd ?h" "0 < ?h"
    using p q by (simp_all add: lcm_big_dvd)
  have cp: "coprime r p" and cq: "coprime r q" using r(2) by simp_all
  have np: "\<not> p dvd r"
  proof
    assume "p dvd r"
    with cp have "is_unit p" by (metis coprime_common_divisor dvd_refl)
    with p show False by simp
  qed
  have nq: "\<not> q dvd r"
  proof
    assume "q dvd r"
    with cq have "is_unit q" by (metis coprime_common_divisor dvd_refl)
    with q show False by simp
  qed
  have "p dvd r ^ nat ?h - 1"
    using p d(3) by (intro power_dvd_exp_mod1 [OF fermat_little [OF pr(1) r(1) np] d(1)]) simp_all
  moreover have "q dvd r ^ nat ?h - 1"
    using q d(3) by (intro power_dvd_exp_mod1 [OF fermat_little [OF pr(2) r(1) nq] d(2)]) simp_all
  moreover have "coprime p q" using pr by (rule is_prime_distinct_coprime)
  ultimately have "p * q dvd r ^ nat ?h - 1" by (rule divides_mult)
  then have "r ^ nat ?h mod (p * q) = 1 mod (p * q)" by (simp only: mod_eq_dvd_iff)
  moreover have "1 < p * q" using p q by (metis less_1_mult)
  ultimately show ?thesis by simp
qed

lemma one_mod_power_n:
  assumes "a mod n = 1" "1 < (n::int)"
  shows "a ^ nat n mod (n * n) = 1"
proof -
  have "a = 1 + (a div n) * n" using assms(1) by (metis add.commute div_mult_mod_eq)
  then have "a mod (n * n) = (1 + (a div n) * n) mod (n * n)" by simp
  then have "a ^ nat n mod (n * n) = (1 + int (nat n) * (a div n) * n) mod (n * n)"
    by (rule lin_power_mod)
  also have "\<dots> = (1 + (a div n) * (n * n)) mod (n * n)"
    using assms(2) by (simp add: algebra_simps)
  also have "\<dots> = 1 mod (n * n)" by simp
  also have "\<dots> = 1" using assms(2) by (simp add: less_1_mult)
  finally show ?thesis .
qed


section \<open>Key pairs, encryption and decryption\<close>

lemma GenKeypair_Inr:
  assumes "GenKeypair inst = Inr sk"
  shows "PublicKey sk = \<lparr>P_n = P inst * Q inst,
            P_nn = (P inst * Q inst) * (P inst * Q inst), P_g = P inst * Q inst + 1\<rparr>"
    and "P_h sk = lcm_big (P inst - 1) (Q inst - 1)"
    and "rev_big (l (pow (P inst * Q inst + 1) (lcm_big (P inst - 1) (Q inst - 1))
            ((P inst * Q inst) * (P inst * Q inst))) (P inst * Q inst)) (P inst * Q inst)
          = Inr (P_u sk)"
  using assms
  by (auto simp: GenKeypair_def Let_def square_def inc_big_def dec_def split: sum.splits)

lemma pow_generator:
  assumes "1 < n" "0 \<le> e"
  shows "pow (n + 1) e (n * n) = 1 + (e mod n) * n"
proof -
  have "(n + 1) mod (n * n) = (1 + 1 * n) mod (n * n)" by (simp add: add.commute)
  then have "(n + 1) ^ nat e mod (n * n) = (1 + int (nat e) * 1 * n) mod (n * n)"
    by (rule lin_power_mod)
  then show ?thesis using assms by (simp add: pow_nonneg lin_mod_normal)
qed

lemma rev_big_sound:
  assumes "rev_big a m = Inr x" "1 < m"
  shows "(a * x) mod m = 1" "0 \<le> x" "x < m" "gcd a m = 1"
proof -
  show g: "gcd a m = 1" using assms(1) by (auto simp: rev_big_def split: if_splits)
  from assms(2) have "0 < m" by simp
  from rev_big_Inr [OF this g] assms show "(a * x) mod m = 1" "0 \<le> x" "x < m" by auto
qed

lemma valid_keypair_facts:
  assumes "valid_keypair inst sk"
  defines "n \<equiv> P_n (PublicKey sk)" and "h \<equiv> P_h sk"
  shows "n = P inst * Q inst" "h = lcm_big (P inst - 1) (Q inst - 1)"
    "P_nn (PublicKey sk) = n * n" "P_g (PublicKey sk) = n + 1"
    "1 < n" "0 < h" "(h * P_u sk) mod n = 1"
proof -
  from assms(1) have pr: "is_prime (P inst)" "is_prime (Q inst)" "P inst \<noteq> Q inst"
    and gk: "GenKeypair inst = Inr sk" by (simp_all add: valid_keypair_def)
  note k = GenKeypair_Inr [OF gk]
  show n: "n = P inst * Q inst" and h: "h = lcm_big (P inst - 1) (Q inst - 1)"
    and "P_nn (PublicKey sk) = n * n" and "P_g (PublicKey sk) = n + 1"
    by (simp_all add: n_def h_def k(1,2))
  have p: "1 < P inst" and q: "1 < Q inst" using pr by (simp_all add: is_prime_gt1)
  then show n1: "1 < n" unfolding n by (metis less_1_mult)
  show h0: "0 < h" unfolding h using p q by (simp add: lcm_big_dvd)
  have "rev_big (l (pow (n + 1) h (n * n)) n) n = Inr (P_u sk)"
    using k(3) by (simp add: n h)
  moreover have "l (pow (n + 1) h (n * n)) n = h mod n"
    using n1 h0 by (simp add: pow_generator l_def)
  ultimately have "rev_big (h mod n) n = Inr (P_u sk)" by simp
  from rev_big_sound(1) [OF this n1] have "((h mod n) * P_u sk) mod n = 1" .
  then show "(h * P_u sk) mod n = 1" by (simp add: mod_mult_left_eq)
qed

lemma Decrypt_encodes:
  assumes "valid_keypair inst sk" "encodes (P_n (PublicKey sk)) (P_h sk) c m"
  shows "Decrypt sk c = m mod P_n (PublicKey sk)"
proof -
  let ?n = "P_n (PublicKey sk)" and ?h = "P_h sk" and ?u = "P_u sk"
  note f = valid_keypair_facts [OF assms(1)]
  have "pow c ?h (P_nn (PublicKey sk)) = (1 + (m * ?h) * ?n) mod (?n * ?n)"
    using assms(2) f(6) by (simp add: pow_nonneg f(3) encodes_def)
  then have "l (pow c ?h (P_nn (PublicKey sk))) ?n = (m * ?h) mod ?n"
    using f(5) by (simp add: l_lin)
  then have "Decrypt sk c = ((m * ?h) mod ?n * ?u) mod ?n"
    by (simp add: Decrypt_def Let_def bigMul_def)
  also have "\<dots> = (m * (?h * ?u)) mod ?n" by (simp add: mod_mult_left_eq mult.assoc)
  also have "\<dots> = (m * ((?h * ?u) mod ?n)) mod ?n" by (simp add: mod_mult_right_eq)
  also have "\<dots> = m mod ?n" by (simp add: f(7))
  finally show ?thesis .
qed

lemma encodes_mult:
  assumes "encodes n h a x" "encodes n h b y"
  shows "encodes n h ((a * b) mod (n * n)) (x + y)"
proof -
  have "(a * b) ^ nat h mod (n * n) = (a ^ nat h * b ^ nat h) mod (n * n)"
    by (simp add: power_mult_distrib)
  also have "\<dots> = (1 + (x * h + y * h) * n) mod (n * n)"
    using assms unfolding encodes_def by (rule lin_mult_mod)
  finally have "(a * b) ^ nat h mod (n * n) = (1 + (x + y) * h * n) mod (n * n)"
    by (simp add: algebra_simps)
  then show ?thesis by (simp add: encodes_def power_mod)
qed

lemma encodes_power:
  assumes "encodes n h a x"
  shows "encodes n h (a ^ k mod (n * n)) (x * int k)"
proof -
  have "(a ^ k) ^ nat h = (a ^ nat h) ^ k" by (simp add: power_mult [symmetric] mult.commute)
  moreover have "(a ^ nat h) ^ k mod (n * n) = (1 + int k * (x * h) * n) mod (n * n)"
    using assms unfolding encodes_def by (rule lin_power_mod)
  ultimately have "(a ^ k) ^ nat h mod (n * n) = (1 + x * int k * h * n) mod (n * n)"
    by (simp add: algebra_simps)
  then show ?thesis by (simp add: encodes_def power_mod)
qed

lemma encodes_Encrypt:
  assumes "valid_keypair inst sk" "0 \<le> m" "0 \<le> r" "coprime r (P_n (PublicKey sk))"
  shows "encodes (P_n (PublicKey sk)) (P_h sk)
           (bigMul (pow (P_g (PublicKey sk)) m (P_nn (PublicKey sk)))
                   (pow r (P_n (PublicKey sk)) (P_nn (PublicKey sk))) (P_nn (PublicKey sk))) m"
proof -
  let ?n = "P_n (PublicKey sk)" and ?h = "P_h sk"
  note f = valid_keypair_facts [OF assms(1)]
  from assms(1) have pr: "is_prime (P inst)" "is_prime (Q inst)" "P inst \<noteq> Q inst"
    by (simp_all add: valid_keypair_def)
  have g1: "encodes ?n ?h (?n + 1) 1"
  proof -
    have "(?n + 1) mod (?n * ?n) = (1 + 1 * ?n) mod (?n * ?n)" by (simp add: add.commute)
    then have "(?n + 1) ^ nat ?h mod (?n * ?n) = (1 + int (nat ?h) * 1 * ?n) mod (?n * ?n)"
      by (rule lin_power_mod)
    then show ?thesis using f(6) by (simp add: encodes_def)
  qed
  have g: "encodes ?n ?h ((?n + 1) ^ nat m mod (?n * ?n)) m"
    using encodes_power [OF g1, of "nat m"] assms(2) by simp
  have "r ^ nat ?h mod ?n = 1"
    using carmichael_mod [OF pr assms(3)] assms(4) by (simp add: f(1,2))
  then have "(r ^ nat ?h) ^ nat ?n mod (?n * ?n) = 1" using f(5) by (rule one_mod_power_n)
  then have "(r ^ nat ?n) ^ nat ?h mod (?n * ?n) = (1 + 0 * ?h * ?n) mod (?n * ?n)"
    using f(5) by (simp add: power_mult [symmetric] mult.commute less_1_mult)
  then have b: "encodes ?n ?h (r ^ nat ?n mod (?n * ?n)) 0"
    by (simp add: encodes_def power_mod)
  from encodes_mult [OF g b] show ?thesis
    using assms(2) f(5) by (simp add: bigMul_def pow_nonneg f(3,4))
qed


section \<open>The homomorphic operations\<close>

lemma Encrypt_Inr:
  "Encrypt (Inr r) key m =
     Inr (bigMul (pow (P_g key) m (P_nn key)) (pow r (P_n key) (P_nn key)) (P_nn key))"
  by (simp add: Encrypt_def)

lemma Encrypt_coprime:
  assumes "valid_keypair inst sk" "coprime r (P_n (PublicKey sk))"
  shows "coprime (bigMul (pow (P_g (PublicKey sk)) m (P_nn (PublicKey sk)))
                   (pow r (P_n (PublicKey sk)) (P_nn (PublicKey sk))) (P_nn (PublicKey sk)))
           (P_n (PublicKey sk) * P_n (PublicKey sk))"
proof -
  let ?n = "P_n (PublicKey sk)"
  note f = valid_keypair_facts [OF assms(1)]
  have nz: "?n * ?n \<noteq> 0" using f(5) by simp
  have N: "1 < ?n * ?n" using f(5) by (metis less_1_mult)
  have "coprime (?n + 1) (?n * ?n)" by (simp add: coprime_add_one_left)
  then have g: "coprime (pow (?n + 1) m (?n * ?n)) (?n * ?n)" by (rule pow_coprime [OF N])
  have "coprime r (?n * ?n)" using assms(2) by simp
  then have b: "coprime (pow r ?n (?n * ?n)) (?n * ?n)" by (rule pow_coprime [OF N])
  from g b have "coprime (pow (?n + 1) m (?n * ?n) * pow r ?n (?n * ?n)) (?n * ?n)" by simp
  then have "coprime ((pow (?n + 1) m (?n * ?n) * pow r ?n (?n * ?n)) mod (?n * ?n)) (?n * ?n)"
    by (simp only: coprime_mod_left_iff [OF nz])
  then show ?thesis by (simp add: bigMul_def f(3,4))
qed

lemma encodes_Add:
  assumes "encodes n h a x" "encodes n h b y" "P_nn key = n * n"
  shows "encodes n h (Add a b key) (x + y)"
  using encodes_mult [OF assms(1,2)] by (simp add: Add_def bigMul_def assms(3))

lemma encodes_Mul:
  assumes "encodes n h a x" "P_nn key = n * n" "0 \<le> k"
  shows "encodes n h (Mul a k key) (x * k)"
  using encodes_power [OF assms(1), of "nat k"] assms(3)
  by (simp add: Mul_def pow_nonneg assms(2))

lemma encodes_inverse:
  assumes "encodes n h b y" "(b * b') mod (n * n) = 1 mod (n * n)"
  shows "encodes n h b' (- y)"
proof -
  let ?N = "n * n"
  let ?B = "b ^ nat h" and ?B' = "b' ^ nat h"
  have B: "?B mod ?N = (1 + (y * h) * n) mod ?N" using assms(1) by (simp add: encodes_def)
  have "(?B * ?B') mod ?N = ((b * b') mod ?N) ^ nat h mod ?N"
    by (simp add: power_mult_distrib power_mod)
  then have BB: "(?B' * ?B) mod ?N = 1 mod ?N"
    by (simp add: assms(2) power_mod mult.commute)
  have u: "((1 + (y * h) * n) * (1 + (- (y * h)) * n)) mod ?N = 1 mod ?N"
    using lin_mult_mod [OF refl refl, of "y * h" n "- (y * h)"] by simp
  have "?B' mod ?N = (?B' * 1) mod ?N" by simp
  also have "\<dots> = (?B' * ((1 + (y * h) * n) * (1 + (- (y * h)) * n))) mod ?N"
    using u by (metis mod_mult_right_eq)
  also have "\<dots> = ((?B' * (1 + (y * h) * n)) * (1 + (- (y * h)) * n)) mod ?N"
    by (simp only: mult.assoc)
  also have "\<dots> = ((?B' * ?B) * (1 + (- (y * h)) * n)) mod ?N"
    using B by (metis mod_mult_left_eq mod_mult_right_eq)
  also have "\<dots> = (1 * (1 + (- (y * h)) * n)) mod ?N"
    using BB by (metis mod_mult_left_eq)
  finally show ?thesis by (simp add: encodes_def)
qed

lemma encodes_pow:
  assumes "encodes n h a x" "1 < n" "coprime a (n * n)"
  shows "encodes n h (pow a e (n * n)) (x * e)"
proof (cases "0 \<le> e")
  case True
  from encodes_power [OF assms(1), of "nat e"] True show ?thesis by (simp add: pow_nonneg)
next
  case False
  have "e < 0" "0 < n * n" "gcd a (n * n) = 1"
    using False assms(2,3) by (simp_all add: coprime_iff_gcd_eq_1 [symmetric])
  from pow_neg [OF this] obtain ib where
    i: "(a * ib) mod (n * n) = 1 mod (n * n)" "pow a e (n * n) = ib ^ nat (- e) mod (n * n)"
    by blast
  from assms(1) i(1) have "encodes n h ib (- x)" by (rule encodes_inverse)
  from encodes_power [OF this, of "nat (- e)"] False show ?thesis by (simp add: i(2))
qed

lemma encodes_generator:
  assumes "valid_keypair inst sk"
  shows "encodes (P_n (PublicKey sk)) (P_h sk) (P_n (PublicKey sk) + 1) 1"
proof -
  let ?n = "P_n (PublicKey sk)" and ?h = "P_h sk"
  note f = valid_keypair_facts [OF assms]
  have "(?n + 1) mod (?n * ?n) = (1 + 1 * ?n) mod (?n * ?n)" by (simp add: add.commute)
  then have "(?n + 1) ^ nat ?h mod (?n * ?n) = (1 + int (nat ?h) * 1 * ?n) mod (?n * ?n)"
    by (rule lin_power_mod)
  then show ?thesis using f(6) by (simp add: encodes_def)
qed

lemma encodes_Encrypt_any:
  assumes "valid_keypair inst sk" "0 \<le> r" "coprime r (P_n (PublicKey sk))"
  shows "encodes (P_n (PublicKey sk)) (P_h sk)
           (bigMul (pow (P_g (PublicKey sk)) m (P_nn (PublicKey sk)))
                   (pow r (P_n (PublicKey sk)) (P_nn (PublicKey sk))) (P_nn (PublicKey sk))) m"
proof -
  let ?n = "P_n (PublicKey sk)" and ?h = "P_h sk"
  note f = valid_keypair_facts [OF assms(1)]
  have "coprime (?n + 1) (?n * ?n)" by (simp add: coprime_add_one_left)
  with encodes_generator [OF assms(1)] f(5)
  have "encodes ?n ?h (pow (?n + 1) m (?n * ?n)) (1 * m)" by (rule encodes_pow)
  then have g: "encodes ?n ?h (pow (?n + 1) m (?n * ?n)) m" by simp
  have z: "(0::int) \<le> 0" by simp
  from encodes_Encrypt [OF assms(1) z assms(2,3)] f(5)
  have "encodes ?n ?h (((?n + 1) ^ nat 0 mod (?n * ?n)) * pow r ?n (?n * ?n) mod (?n * ?n)) 0"
    by (simp add: bigMul_def f(3,4) pow_nonneg)
  then have "encodes ?n ?h (1 * pow r ?n (?n * ?n)) 0"
    using f(5) by (simp add: encodes_def power_mod mod_mult_right_eq pow_nonneg less_1_mult)
  then have b: "encodes ?n ?h (pow r ?n (?n * ?n)) 0" by simp
  from encodes_mult [OF g b] show ?thesis by (simp add: bigMul_def f(3,4))
qed

lemma encodes_Sub:
  assumes "encodes n h a x" "encodes n h b y" "P_nn key = n * n" "1 < n" "coprime b (n * n)"
  shows "\<exists>c. Sub a b key = Inr c \<and> encodes n h c (x - y)"
proof -
  have N: "0 < n * n" using assms(4) by simp
  have "gcd b (n * n) = 1" using assms(5) by (simp only: coprime_iff_gcd_eq_1)
  from rev_big_Inr [OF N this] obtain b' where
    b': "rev_big b (n * n) = Inr b'" "(b * b') mod (n * n) = 1 mod (n * n)" by blast
  have "encodes n h b' (- y)" using assms(2) b'(2) by (rule encodes_inverse)
  with assms(1) have "encodes n h ((a * b') mod (n * n)) (x + - y)" by (rule encodes_mult)
  moreover have "Sub a b key = Inr ((a * b') mod (n * n))"
    by (simp add: Sub_def assms(3) b'(1) bigMul_def)
  ultimately show ?thesis by simp
qed


lemma lcm_big_eq_lcm:
  assumes "0 < a" "0 < b"
  shows "lcm_big a b = lcm a b"
  using assms by (simp add: lcm_big_def lcm_int_def lcm_nat_def nat_mult_distrib zdiv_int
      abs_mult gcd_int_def nat_abs_mult_distrib)

section \<open>The constructors and bit lengths\<close>

lemma bit_length_le_iff: "bit_length n \<le> k \<longleftrightarrow> n < 2 ^ k"
proof (induction k arbitrary: n)
  case 0
  show ?case by (simp add: bit_length.simps [of n])
next
  case (Suc k)
  show ?case
  proof (cases "n = 0")
    case True
    then show ?thesis by (simp add: bit_length.simps [of 0])
  next
    case False
    then have "bit_length n \<le> Suc k \<longleftrightarrow> bit_length (n div 2) \<le> k"
      by (simp add: bit_length.simps [of n])
    also have "\<dots> \<longleftrightarrow> n div 2 < 2 ^ k" by (rule Suc.IH)
    also have "\<dots> \<longleftrightarrow> n < 2 ^ Suc k" by auto
    finally show ?thesis .
  qed
qed

lemma bit_length_mult:
  assumes "bit_length a = b" "bit_length c = b" "2 \<le> b"
  shows "b < bit_length (a * c)"
proof -
  obtain j where j: "b = Suc (Suc j)" using assms(3) by (metis Suc_le_D numeral_2_eq_2 Suc_le_mono)
  have "\<not> bit_length a \<le> Suc j" "\<not> bit_length c \<le> Suc j" using assms(1,2) j by simp_all
  then have lo: "2 ^ Suc j \<le> a" "2 ^ Suc j \<le> c" by (simp_all add: bit_length_le_iff)
  then have "2 ^ Suc j * 2 ^ Suc j \<le> a * c" by (rule mult_le_mono)
  moreover have "(2::nat) ^ b \<le> 2 ^ Suc j * 2 ^ Suc j"
    unfolding j power_add [symmetric] by (rule power_increasing) simp_all
  ultimately have "\<not> a * c < 2 ^ b" by simp
  then show ?thesis by (simp add: bit_length_le_iff [symmetric])
qed

lemma BitLen_mult:
  assumes "int (BitLen p) = k" "int (BitLen q) = k" "2 \<le> k"
  shows "k < int (BitLen (p * q))"
proof -
  have "BitLen p = nat k" "BitLen q = nat k" "2 \<le> nat k" using assms by auto
  then have "nat k < bit_length (nat \<bar>p\<bar> * nat \<bar>q\<bar>)"
    unfolding BitLen_def by (rule bit_length_mult)
  then show ?thesis by (simp add: BitLen_def abs_mult nat_mult_distrib)
qed

lemma GetDefaultInstance_GetInstance:
  "GetDefaultInstance Prime Reader = GetInstance Prime Reader defaultKeySize"
  by (simp add: GetDefaultInstance_def GetInstance_def)

lemma GetInstance_Inr:
  assumes "GetInstance Prime random keySize = Inr inst"
  shows "\<exists>rd1 rd2. Prime random keySize = (Inr (P inst), rd1)
           \<and> Prime rd1 keySize = (Inr (Q inst), rd2) \<and> randomReader inst = rd2"
  using assms by (auto simp: GetInstance_def split: prod.splits sum.splits)

lemma replay_Prime_contract:
  "\<forall>rd bits p rd'. replay_Prime rd bits = (Inr p, rd') \<longrightarrow> int (BitLen p) = bits"
proof (intro allI impI)
  fix rd bits p rd'
  assume "replay_Prime rd bits = (Inr p, rd')"
  then show "int (BitLen p) = bits" by (cases rd) (auto split: if_splits)
qed

lemma GetInstance_replay_5_7:
  "GetInstance replay_Prime [5, 7] 3 = Inr \<lparr>P = 5, Q = 7, randomReader = []\<rparr>"
  by code_simp

lemma GenKeypair_primes_only:
  "P i1 = P i2 \<Longrightarrow> Q i1 = Q i2 \<Longrightarrow> GenKeypair i1 = GenKeypair i2"
  by (simp add: GenKeypair_def)

lemma pow_zero_base:
  assumes "0 < e"
  shows "pow 0 e m = 0"
  using assms by (simp add: pow_nonneg zero_power)


section \<open>The instance in the heap\<close>

lemma new_Int_fst: "fst (new_Int v hp) = used hp"
  by (simp add: new_Int_def)

lemma new_Int_used: "used (snd (new_Int v hp)) = Suc (used hp)"
  by (simp add: new_Int_def)

lemma new_Int_cell_new: "a = used hp \<Longrightarrow> cell (snd (new_Int v hp)) a = v"
  by (simp add: new_Int_def)

lemma new_Int_cell_old: "a < used hp \<Longrightarrow> cell (snd (new_Int v hp)) a = cell hp a"
  by (simp add: new_Int_def)

lemmas new_Int_simps = new_Int_fst new_Int_used new_Int_cell_new new_Int_cell_old

lemma GenKeypair_heap_used: "used hp \<le> used (snd (GenKeypair_heap p hp))"
  by (simp add: GenKeypair_heap_def split_beta Let_def new_Int_fst new_Int_used split: sum.splits)

lemma GenKeypair_heap_frame: "a < used hp \<Longrightarrow> cell (snd (GenKeypair_heap p hp)) a = cell hp a"
  by (simp add: GenKeypair_heap_def split_beta Let_def new_Int_simps split: sum.splits)

lemma GenKeypair_heap_value:
  assumes "P_ptr p < used hp" "Q_ptr p < used hp"
  shows "map_sum id (key_val (snd (GenKeypair_heap p hp))) (fst (GenKeypair_heap p hp))
           = GenKeypair (inst_val hp p)"
  using assms
  by (simp add: GenKeypair_heap_def GenKeypair_def split_beta Let_def inst_val_def key_val_def
      new_Int_simps split: sum.splits)

lemma GenKeypair_heap_fresh:
  assumes "fst (GenKeypair_heap p hp) = Inr k"
  shows "used hp \<le> n_ptr (pub_ptr k) \<and> used hp \<le> nn_ptr (pub_ptr k)
           \<and> used hp \<le> g_ptr (pub_ptr k) \<and> used hp \<le> h_ptr k \<and> used hp \<le> u_ptr k"
  using assms
  by (auto simp: GenKeypair_heap_def split_beta Let_def new_Int_fst new_Int_used
      split: sum.splits)

lemma GenKeypair_heap_below:
  assumes "fst (GenKeypair_heap p hp) = Inr k"
  shows "n_ptr (pub_ptr k) < used (snd (GenKeypair_heap p hp))
       \<and> nn_ptr (pub_ptr k) < used (snd (GenKeypair_heap p hp))
       \<and> g_ptr (pub_ptr k) < used (snd (GenKeypair_heap p hp))
       \<and> h_ptr k < used (snd (GenKeypair_heap p hp))
       \<and> u_ptr k < used (snd (GenKeypair_heap p hp))"
  using assms
  by (auto simp: GenKeypair_heap_def split_beta Let_def new_Int_fst new_Int_used
      split: sum.splits)

lemma key_val_frame:
  assumes "n_ptr (pub_ptr k) < used hp" "nn_ptr (pub_ptr k) < used hp" "g_ptr (pub_ptr k) < used hp"
    "h_ptr k < used hp" "u_ptr k < used hp"
  shows "key_val (snd (GenKeypair_heap p hp)) k = key_val hp k"
  using assms by (simp add: key_val_def GenKeypair_heap_frame)

lemma inst_val_frame:
  assumes "P_ptr p < used hp" "Q_ptr p < used hp"
  shows "inst_val (snd (GenKeypair_heap p' hp)) p = inst_val hp p"
  using assms by (simp add: inst_val_def GenKeypair_heap_frame)

lemma GetInstance_heap_sound:
  assumes "GetInstance_heap Prime random keySize hp = (Inr p, hp0)"
  shows "GetInstance Prime random keySize = Inr (inst_val hp0 p)"
    and "P_ptr p < used hp0" and "Q_ptr p < used hp0"
  using assms
  by (auto simp: GetInstance_heap_def GetInstance_def new_Int_def inst_val_def
      split: prod.splits sum.splits)

lemma GetDefaultInstance_heap_GetInstance_heap:
  "GetDefaultInstance_heap Prime Reader hp = GetInstance_heap Prime Reader defaultKeySize hp"
  by (simp add: GetDefaultInstance_heap_def GetInstance_heap_def)

lemma GenKeypair_heap_same_primes:
  assumes "P_ptr p < used hp" "Q_ptr p < used hp" "P_ptr p < used hpX" "Q_ptr p < used hpX"
    and "cell hpX (P_ptr p) = cell hp (P_ptr p)" "cell hpX (Q_ptr p) = cell hp (Q_ptr p)"
  shows "map_sum id (key_val (snd (GenKeypair_heap p hpX))) (fst (GenKeypair_heap p hpX))
       = map_sum id (key_val (snd (GenKeypair_heap p hp))) (fst (GenKeypair_heap p hp))"
proof -
  have "inst_val hpX p = inst_val hp p" using assms(5,6) by (simp add: inst_val_def)
  then show ?thesis
    using GenKeypair_heap_value [OF assms(1,2)] GenKeypair_heap_value [OF assms(3,4)] by simp
qed

lemma BitLen_5_7: "int (BitLen 5) = 3" "int (BitLen 7) = 3"
  by code_simp+

lemma GetInstance_heap_5_7:
  "GetInstance_heap replay_Prime [5, 7] 3 heap0 = (Inr inst57, heap57)"
  by (simp add: GetInstance_heap_def new_Int_def heap0_def inst57_def heap57_def BitLen_5_7)

lemma GenKeypair_5_7:
  "GenKeypair \<lparr>P = 5, Q = 7, randomReader = ([]::int list)\<rparr>
     = Inr \<lparr>PublicKey = \<lparr>P_n = 35, P_nn = 1225, P_g = 36\<rparr>, P_h = 12, P_u = 3\<rparr>"
  by code_simp

lemma inst_val_57: "inst_val heap57 inst57 = \<lparr>P = 5, Q = 7, randomReader = []\<rparr>"
  by (simp add: inst_val_def heap57_def inst57_def)

lemma GenKeypair_heap_57:
  "map_sum id (key_val (snd (GenKeypair_heap inst57 heap57))) (fst (GenKeypair_heap inst57 heap57))
     = Inr \<lparr>PublicKey = \<lparr>P_n = 35, P_nn = 1225, P_g = 36\<rparr>, P_h = 12, P_u = 3\<rparr>"
proof -
  have wf: "P_ptr inst57 < used heap57" "Q_ptr inst57 < used heap57"
    by (simp_all add: inst57_def heap57_def)
  from GenKeypair_heap_value [OF wf] show ?thesis by (simp only: inst_val_57 GenKeypair_5_7)
qed


section \<open>The key pair of the primes 3 and 5\<close>

lemma is_prime_3: "is_prime 3" by code_simp
lemma is_prime_5: "is_prime 5" by code_simp

lemma GenKeypair_inst35: "GenKeypair inst35 = Inr sk35"
  by code_simp

lemma valid_keypair_35: "valid_keypair inst35 sk35"
  unfolding valid_keypair_def by code_simp

lemma PublicKey_sk35: "PublicKey sk35 = pk35" "P_n pk35 = 15"
  by (simp_all add: sk35_def pk35_def)


lemma coprime_7_15: "coprime (7::int) 15" by code_simp
lemma coprime_4_15: "coprime (4::int) 15" by code_simp


section \<open>Properties of the scheme\<close>

text \<open>
  C7. Concrete vector: with \<open>p = 3\<close> and \<open>q = 5\<close> key generation gives \<open>n = 15\<close>,
  \<open>n\<^sup>2 = 225\<close>, \<open>g = 16\<close>, \<open>h = 4\<close>, \<open>u = 4\<close>; encrypting 2 with blinding factor 7
  gives 58, which decrypts to 2; encrypting 3 with blinding factor 4 gives 154, which
  decrypts to 3; adding 58 and 154 gives 157, which decrypts to 5.
\<close>

theorem concrete_vector:
  "GenKeypair inst35 = Inr \<lparr>PublicKey = \<lparr>P_n = 15, P_nn = 225, P_g = 16\<rparr>, P_h = 4, P_u = 4\<rparr>
   \<and> Encrypt (Inr 7) pk35 2 = Inr 58 \<and> Decrypt sk35 58 = 2
   \<and> Encrypt (Inr 4) pk35 3 = Inr 154 \<and> Decrypt sk35 154 = 3
   \<and> Add 58 154 pk35 = 157 \<and> Decrypt sk35 157 = 5"
  by (intro conjI; code_simp)

text \<open>
  C1. Round trip: for every key pair that \<^verbatim>\<open>GenKeypair\<close> produces from two distinct
  primes, every plaintext \<open>m\<close> in \<open>[0, n)\<close> and every blinding factor \<open>r\<close> in \<open>[0, n)\<close>
  coprime to \<open>n\<close>, encryption succeeds and decrypting its ciphertext gives \<open>m\<close> back.
  The primes need not be odd.
\<close>

theorem Decrypt_Encrypt_roundtrip:
  assumes "valid_keypair inst sk"
    and "0 \<le> m" "m < P_n (PublicKey sk)"
    and "0 \<le> r" "r < P_n (PublicKey sk)" "coprime r (P_n (PublicKey sk))"
  shows "\<exists>c. Encrypt (Inr r) (PublicKey sk) m = Inr c \<and> Decrypt sk c = m"
proof -
  let ?c = "bigMul (pow (P_g (PublicKey sk)) m (P_nn (PublicKey sk)))
                   (pow r (P_n (PublicKey sk)) (P_nn (PublicKey sk))) (P_nn (PublicKey sk))"
  have "Encrypt (Inr r) (PublicKey sk) m = Inr ?c" by (simp add: Encrypt_def)
  moreover have "encodes (P_n (PublicKey sk)) (P_h sk) ?c m"
    using assms(1,2,4,6) by (rule encodes_Encrypt)
  then have "Decrypt sk ?c = m mod P_n (PublicKey sk)"
    by (rule Decrypt_encodes [OF assms(1)])
  then have "Decrypt sk ?c = m" using assms(2,3) by simp
  ultimately show ?thesis by blast
qed

theorem Decrypt_Encrypt_roundtrip_witness:
  "valid_keypair inst35 sk35 \<and> (0::int) \<le> 2 \<and> 2 < P_n (PublicKey sk35)
   \<and> (0::int) \<le> 7 \<and> 7 < P_n (PublicKey sk35) \<and> coprime 7 (P_n (PublicKey sk35))
   \<and> (\<exists>c. Encrypt (Inr 7) (PublicKey sk35) 2 = Inr c \<and> Decrypt sk35 c = 2)"
proof -
  have v: "valid_keypair inst35 sk35" unfolding valid_keypair_def by code_simp
  have n: "P_n (PublicKey sk35) = 15" by (simp add: sk35_def pk35_def)
  have c: "coprime (7::int) 15" by code_simp
  have h: "(0::int) \<le> 2" "(2::int) < P_n (PublicKey sk35)" "(0::int) \<le> 7"
    "7 < P_n (PublicKey sk35)" "coprime 7 (P_n (PublicKey sk35))"
    using c by (simp_all add: n)
  from Decrypt_Encrypt_roundtrip [OF v h] v h show ?thesis by blast
qed

text \<open>
  C2. Additive homomorphism: \<^verbatim>\<open>Add(a, b, pk)\<close> is \<open>(a\<cdot>b) mod n\<^sup>2\<close>, and for every valid
  key pair, plaintexts \<open>m1\<close>, \<open>m2\<close> and blinding factors coprime to \<open>n\<close>, the sum of the two
  ciphertexts decrypts to \<open>(m1 + m2) mod n\<close>. The bounds \<open>m < n\<close> and \<open>r < n\<close> are not needed.
\<close>

theorem Add_homomorphic:
  assumes "valid_keypair inst sk"
    and "0 \<le> m1" "0 \<le> r1" "coprime r1 (P_n (PublicKey sk))"
    and "0 \<le> m2" "0 \<le> r2" "coprime r2 (P_n (PublicKey sk))"
  shows "Add a b (PublicKey sk) = (a * b) mod (P_n (PublicKey sk))\<^sup>2
    \<and> (\<exists>c1 c2. Encrypt (Inr r1) (PublicKey sk) m1 = Inr c1
          \<and> Encrypt (Inr r2) (PublicKey sk) m2 = Inr c2
          \<and> Decrypt sk (Add c1 c2 (PublicKey sk)) = (m1 + m2) mod P_n (PublicKey sk))"
proof -
  let ?pk = "PublicKey sk" and ?n = "P_n (PublicKey sk)" and ?h = "P_h sk"
  note f = valid_keypair_facts [OF assms(1)]
  obtain c1 where c1: "Encrypt (Inr r1) ?pk m1 = Inr c1" by (simp add: Encrypt_Inr)
  obtain c2 where c2: "Encrypt (Inr r2) ?pk m2 = Inr c2" by (simp add: Encrypt_Inr)
  have e1: "encodes ?n ?h c1 m1"
    using encodes_Encrypt [OF assms(1,2,3,4)] c1 by (simp add: Encrypt_Inr)
  have e2: "encodes ?n ?h c2 m2"
    using encodes_Encrypt [OF assms(1,5,6,7)] c2 by (simp add: Encrypt_Inr)
  have "encodes ?n ?h (Add c1 c2 ?pk) (m1 + m2)" using e1 e2 f(3) by (rule encodes_Add)
  then have "Decrypt sk (Add c1 c2 ?pk) = (m1 + m2) mod ?n"
    by (rule Decrypt_encodes [OF assms(1)])
  moreover have "Add a b ?pk = (a * b) mod ?n\<^sup>2"
    by (simp add: Add_def bigMul_def f(3) power2_eq_square)
  ultimately show ?thesis using c1 c2 by blast
qed

theorem Add_homomorphic_witness:
  "valid_keypair inst35 sk35
   \<and> (0::int) \<le> 2 \<and> (0::int) \<le> 7 \<and> coprime 7 (P_n (PublicKey sk35))
   \<and> (0::int) \<le> 3 \<and> (0::int) \<le> 4 \<and> coprime 4 (P_n (PublicKey sk35))
   \<and> Add 58 154 (PublicKey sk35) = (58 * 154) mod (P_n (PublicKey sk35))\<^sup>2
   \<and> (\<exists>c1 c2. Encrypt (Inr 7) (PublicKey sk35) 2 = Inr c1
          \<and> Encrypt (Inr 4) (PublicKey sk35) 3 = Inr c2
          \<and> Decrypt sk35 (Add c1 c2 (PublicKey sk35)) = (2 + 3) mod P_n (PublicKey sk35))"
proof -
  have h: "(0::int) \<le> 2" "(0::int) \<le> 7" "coprime 7 (P_n (PublicKey sk35))"
    "(0::int) \<le> 3" "(0::int) \<le> 4" "coprime 4 (P_n (PublicKey sk35))"
    using coprime_7_15 coprime_4_15 by (simp_all add: PublicKey_sk35)
  from Add_homomorphic [OF valid_keypair_35 h, of 58 154] valid_keypair_35 h
  show ?thesis by blast
qed

text \<open>
  C3. Homomorphic subtraction: \<^verbatim>\<open>Sub(a, b, pk)\<close> is \<^verbatim>\<open>Add\<close> of \<open>a\<close> and the inverse of \<open>b\<close>
  modulo \<open>n\<^sup>2\<close>, and for every valid key pair, plaintexts \<open>m1\<close>, \<open>m2\<close> in \<open>[0, n)\<close> and
  blinding factors coprime to \<open>n\<close>, the subtraction of the two ciphertexts succeeds and
  decrypts to \<open>(m1 - m2) mod n\<close>, which is \<open>m1 - m2 + n\<close> when \<open>m1 < m2\<close>.
\<close>

theorem Sub_homomorphic:
  assumes "valid_keypair inst sk"
    and "0 \<le> m1" "m1 < P_n (PublicKey sk)" "0 \<le> r1" "coprime r1 (P_n (PublicKey sk))"
    and "0 \<le> m2" "m2 < P_n (PublicKey sk)" "0 \<le> r2" "coprime r2 (P_n (PublicKey sk))"
  shows "Sub a b (PublicKey sk) =
           (case rev_big b ((P_n (PublicKey sk))\<^sup>2) of
              Inl err \<Rightarrow> Inl err
            | Inr revB \<Rightarrow> Inr (Add a revB (PublicKey sk)))
    \<and> (\<exists>c1 c2 c. Encrypt (Inr r1) (PublicKey sk) m1 = Inr c1
          \<and> Encrypt (Inr r2) (PublicKey sk) m2 = Inr c2
          \<and> Sub c1 c2 (PublicKey sk) = Inr c
          \<and> Decrypt sk c = (m1 - m2) mod P_n (PublicKey sk)
          \<and> Decrypt sk c = (if m1 < m2 then m1 - m2 + P_n (PublicKey sk) else m1 - m2))"
proof -
  let ?pk = "PublicKey sk" and ?n = "P_n (PublicKey sk)" and ?h = "P_h sk"
  note f = valid_keypair_facts [OF assms(1)]
  obtain c1 where c1: "Encrypt (Inr r1) ?pk m1 = Inr c1" by (simp add: Encrypt_Inr)
  obtain c2 where c2: "Encrypt (Inr r2) ?pk m2 = Inr c2" by (simp add: Encrypt_Inr)
  have e1: "encodes ?n ?h c1 m1"
    using encodes_Encrypt [OF assms(1,2,4,5)] c1 by (simp add: Encrypt_Inr)
  have e2: "encodes ?n ?h c2 m2"
    using encodes_Encrypt [OF assms(1,6,8,9)] c2 by (simp add: Encrypt_Inr)
  have cp: "coprime c2 (?n * ?n)"
    using Encrypt_coprime [OF assms(1,9), of m2] c2 by (simp add: Encrypt_Inr)
  from encodes_Sub [OF e1 e2 f(3,5) cp] obtain c where
    c: "Sub c1 c2 ?pk = Inr c" "encodes ?n ?h c (m1 - m2)" by blast
  from Decrypt_encodes [OF assms(1) c(2)] have d: "Decrypt sk c = (m1 - m2) mod ?n" .
  have w: "(m1 - m2) mod ?n = (if m1 < m2 then m1 - m2 + ?n else m1 - m2)"
  proof (cases "m1 < m2")
    case True
    then have "0 \<le> m1 - m2 + ?n" "m1 - m2 + ?n < ?n" using assms(2,7) by simp_all
    then have a: "(m1 - m2 + ?n) mod ?n = m1 - m2 + ?n" by (rule mod_pos_pos_trivial)
    have b: "(m1 - m2 + ?n) mod ?n = (m1 - m2) mod ?n" by (rule mod_add_self2)
    show ?thesis unfolding if_P [OF True] b [symmetric] by (rule a)
  next
    case False
    then have "0 \<le> m1 - m2" "m1 - m2 < ?n" using assms(3,6) by simp_all
    then show ?thesis using False by simp
  qed
  have "Sub a b ?pk = (case rev_big b (?n\<^sup>2) of Inl err \<Rightarrow> Inl err
                        | Inr revB \<Rightarrow> Inr (Add a revB ?pk))"
    by (simp add: Sub_def Add_def f(3) power2_eq_square split: sum.splits)
  then show ?thesis using c1 c2 c(1) d w by (metis (no_types, lifting))
qed

theorem Sub_homomorphic_witness:
  "valid_keypair inst35 sk35
   \<and> (0::int) \<le> 2 \<and> 2 < P_n (PublicKey sk35) \<and> (0::int) \<le> 7 \<and> coprime 7 (P_n (PublicKey sk35))
   \<and> (0::int) \<le> 3 \<and> 3 < P_n (PublicKey sk35) \<and> (0::int) \<le> 4 \<and> coprime 4 (P_n (PublicKey sk35))
   \<and> (\<exists>c1 c2 c. Encrypt (Inr 7) (PublicKey sk35) 2 = Inr c1
          \<and> Encrypt (Inr 4) (PublicKey sk35) 3 = Inr c2
          \<and> Sub c1 c2 (PublicKey sk35) = Inr c
          \<and> Decrypt sk35 c = (2 - 3) mod P_n (PublicKey sk35)
          \<and> Decrypt sk35 c = (if (2::int) < 3 then 2 - 3 + P_n (PublicKey sk35) else 2 - 3))"
proof -
  have h: "(0::int) \<le> 2" "2 < P_n (PublicKey sk35)" "(0::int) \<le> 7"
    "coprime 7 (P_n (PublicKey sk35))"
    "(0::int) \<le> 3" "3 < P_n (PublicKey sk35)" "(0::int) \<le> 4"
    "coprime 4 (P_n (PublicKey sk35))"
    using coprime_7_15 coprime_4_15 by (simp_all add: PublicKey_sk35)
  from Sub_homomorphic [OF valid_keypair_35 h, of 0 1, THEN conjunct2] valid_keypair_35 h
  show ?thesis by blast
qed

text \<open>
  C4. Scalar homomorphism: \<^verbatim>\<open>Mul(a, k, pk)\<close> is \<open>a\<^sup>k mod n\<^sup>2\<close> for an integer scalar \<open>k\<close>: the
  \<open>k\<close>-th power for \<open>k \<ge> 0\<close>, and for \<open>k < 0\<close> and \<open>a\<close> coprime to \<open>n\<^sup>2\<close> the inverse of the
  \<open>|k|\<close>-th power. For every valid key pair, all integers \<open>m\<close> and \<open>k\<close> of either sign and
  every blinding factor coprime to \<open>n\<close>, the scaled ciphertext of \<open>m\<close> decrypts to
  \<open>(m\<cdot>k) mod n\<close>.
\<close>

theorem Mul_homomorphic:
  assumes "valid_keypair inst sk"
    and "0 \<le> r" "coprime r (P_n (PublicKey sk))"
  shows "(0 \<le> k \<longrightarrow> Mul a k (PublicKey sk) = a ^ nat k mod (P_n (PublicKey sk))\<^sup>2)
    \<and> (k < 0 \<and> coprime a ((P_n (PublicKey sk))\<^sup>2) \<longrightarrow>
         (Mul a k (PublicKey sk) * a ^ nat (- k)) mod (P_n (PublicKey sk))\<^sup>2 = 1)
    \<and> (\<exists>c. Encrypt (Inr r) (PublicKey sk) m = Inr c
          \<and> Decrypt sk (Mul c k (PublicKey sk)) = (m * k) mod P_n (PublicKey sk))"
proof -
  let ?pk = "PublicKey sk" and ?n = "P_n (PublicKey sk)" and ?h = "P_h sk"
  note f = valid_keypair_facts [OF assms(1)]
  have N: "1 < ?n * ?n" using f(5) by (metis less_1_mult)
  have a1: "Mul a k ?pk = a ^ nat k mod ?n\<^sup>2" if "0 \<le> k"
    using that by (simp add: Mul_def pow_nonneg f(3) power2_eq_square)
  have a2: "(Mul a k ?pk * a ^ nat (- k)) mod ?n\<^sup>2 = 1"
    if "k < 0 \<and> coprime a (?n\<^sup>2)"
  proof -
    from that N have "k < 0" "0 < ?n * ?n" "gcd a (?n * ?n) = 1"
      by (simp_all add: coprime_iff_gcd_eq_1 [symmetric] power2_eq_square)
    from pow_neg [OF this] obtain ib where
      i: "(a * ib) mod (?n * ?n) = 1 mod (?n * ?n)"
        "pow a k (?n * ?n) = ib ^ nat (- k) mod (?n * ?n)" by blast
    have "(Mul a k ?pk * a ^ nat (- k)) mod (?n * ?n)
        = (ib ^ nat (- k) * a ^ nat (- k)) mod (?n * ?n)"
      by (simp add: Mul_def f(3) i(2) mod_mult_left_eq)
    also have "\<dots> = ((a * ib) mod (?n * ?n)) ^ nat (- k) mod (?n * ?n)"
      by (simp add: power_mult_distrib [symmetric] power_mod mult.commute)
    also have "\<dots> = 1" using N by (simp add: i(1))
    finally show ?thesis by (simp add: power2_eq_square)
  qed
  obtain c where c: "Encrypt (Inr r) ?pk m = Inr c" by (simp add: Encrypt_Inr)
  have e: "encodes ?n ?h c m"
    using encodes_Encrypt_any [OF assms(1,2,3), of m] c by (simp add: Encrypt_Inr)
  have cp: "coprime c (?n * ?n)"
    using Encrypt_coprime [OF assms(1,3), of m] c by (simp add: Encrypt_Inr)
  from encodes_pow [OF e f(5) cp, of k] have "encodes ?n ?h (Mul c k ?pk) (m * k)"
    by (simp add: Mul_def f(3))
  then have "Decrypt sk (Mul c k ?pk) = (m * k) mod ?n"
    by (rule Decrypt_encodes [OF assms(1)])
  with a1 a2 c show ?thesis by blast
qed

theorem Mul_homomorphic_witness:
  "valid_keypair inst35 sk35 \<and> (0::int) \<le> 7 \<and> coprime 7 (P_n (PublicKey sk35))
   \<and> (\<exists>c. Encrypt (Inr 7) (PublicKey sk35) 2 = Inr c
          \<and> Decrypt sk35 (Mul c 3 (PublicKey sk35)) = (2 * 3) mod P_n (PublicKey sk35))
   \<and> (\<exists>c. Encrypt (Inr 7) (PublicKey sk35) 2 = Inr c
          \<and> Decrypt sk35 (Mul c (- 1) (PublicKey sk35)) = (2 * (- 1)) mod P_n (PublicKey sk35))
   \<and> (\<exists>c. Encrypt (Inr 7) (PublicKey sk35) (- 4) = Inr c
          \<and> Decrypt sk35 (Mul c (- 2) (PublicKey sk35))
              = ((- 4) * (- 2)) mod P_n (PublicKey sk35))
   \<and> Mul 58 (- 1) (PublicKey sk35) = 97 \<and> Decrypt sk35 97 = 13"
proof -
  have h: "(0::int) \<le> 7" "coprime 7 (P_n (PublicKey sk35))"
    using coprime_7_15 by (simp_all add: PublicKey_sk35)
  note t = Mul_homomorphic [OF valid_keypair_35 h]
  have v: "Mul 58 (- 1) (PublicKey sk35) = 97" "Decrypt sk35 97 = 13" by code_simp+
  from t [of 3 0 2, THEN conjunct2, THEN conjunct2]
    t [of "- 1" 0 2, THEN conjunct2, THEN conjunct2]
    t [of "- 2" 0 "- 4", THEN conjunct2, THEN conjunct2]
    valid_keypair_35 h v
  show ?thesis by blast
qed

text \<open>
  C5. Inverse failure: under a modulus \<open>n\<^sup>2 > 1\<close>, \<^verbatim>\<open>Sub(a, b, pk)\<close> fails with
  \<^verbatim>\<open>InverseError\<close> exactly when \<open>b\<close> has no inverse modulo \<open>n\<^sup>2\<close>, that is exactly when \<open>b\<close>
  is not coprime to \<open>n\<^sup>2\<close>; when \<open>b\<close> is coprime to \<open>n\<^sup>2\<close> it succeeds with a ciphertext \<open>c\<close>
  in \<open>[0, n\<^sup>2)\<close> such that \<open>c\<cdot>b\<close> is \<open>a\<close> modulo \<open>n\<^sup>2\<close>.
\<close>

theorem Sub_InverseError_iff:
  assumes "1 < P_nn key"
  shows "(Sub a b key = Inl InverseError \<longleftrightarrow> \<not> (\<exists>x. (b * x) mod P_nn key = 1))
    \<and> (Sub a b key = Inl InverseError \<longleftrightarrow> \<not> coprime b (P_nn key))
    \<and> (coprime b (P_nn key) \<longrightarrow>
         (\<exists>c. Sub a b key = Inr c \<and> 0 \<le> c \<and> c < P_nn key
               \<and> (c * b) mod P_nn key = a mod P_nn key))"
proof -
  let ?N = "P_nn key"
  have N: "0 < ?N" using assms by simp
  have fail: "Sub a b key = Inl InverseError" if "\<not> coprime b ?N"
  proof -
    from that have "gcd b ?N \<noteq> 1" by (metis coprime_iff_gcd_eq_1)
    then show ?thesis by (simp add: Sub_def rev_big_Inl)
  qed
  have ok: "\<exists>c. Sub a b key = Inr c \<and> 0 \<le> c \<and> c < ?N \<and> (c * b) mod ?N = a mod ?N
              \<and> (\<exists>x. (b * x) mod ?N = 1)" if "coprime b ?N"
  proof -
    from that have "gcd b ?N = 1" by (simp only: coprime_iff_gcd_eq_1)
    from rev_big_Inr [OF N this] obtain b' where
      b': "rev_big b ?N = Inr b'" "(b * b') mod ?N = 1 mod ?N" by blast
    have s: "Sub a b key = Inr ((a * b') mod ?N)" by (simp add: Sub_def b'(1) bigMul_def)
    have "((a * b') mod ?N * b) mod ?N = (a * b' * b) mod ?N"
      by (simp only: mod_mult_left_eq)
    also have "\<dots> = (a * (b * b')) mod ?N" by (simp add: ac_simps)
    also have "\<dots> = (a * ((b * b') mod ?N)) mod ?N" by (simp add: mod_mult_right_eq)
    also have "\<dots> = a mod ?N" using b'(2) assms by simp
    finally have "((a * b') mod ?N * b) mod ?N = a mod ?N" .
    moreover have "0 \<le> (a * b') mod ?N" "(a * b') mod ?N < ?N" using N by simp_all
    moreover have "(b * b') mod ?N = 1" using b'(2) assms by simp
    ultimately show ?thesis using s by blast
  qed
  have cp: "coprime b ?N" if "(b * x) mod ?N = 1" for x
    using that by (rule invertible_imp_coprime)
  have a2: "Sub a b key = Inl InverseError \<longleftrightarrow> \<not> coprime b ?N"
    using fail ok by (cases "coprime b ?N") auto
  have a1: "Sub a b key = Inl InverseError \<longleftrightarrow> \<not> (\<exists>x. (b * x) mod ?N = 1)"
    unfolding a2 using ok cp by blast
  have a3: "coprime b ?N \<longrightarrow>
         (\<exists>c. Sub a b key = Inr c \<and> 0 \<le> c \<and> c < ?N \<and> (c * b) mod ?N = a mod ?N)"
    using ok by blast
  from a1 a2 a3 show ?thesis by (intro conjI)
qed

theorem Sub_InverseError_iff_witness:
  "1 < P_nn pk35
   \<and> (Sub 58 154 pk35 = Inl InverseError \<longleftrightarrow> \<not> (\<exists>x. (154 * x) mod P_nn pk35 = 1))
   \<and> (Sub 58 15 pk35 = Inl InverseError \<longleftrightarrow> \<not> coprime 15 (P_nn pk35))
   \<and> Sub 58 15 pk35 = Inl InverseError
   \<and> Sub 58 154 pk35 = Inr 202"
proof -
  have h: "1 < P_nn pk35" by (simp add: pk35_def)
  have c1: "Sub 58 15 pk35 = Inl InverseError" by code_simp
  have c2: "Sub 58 154 pk35 = Inr 202" by code_simp
  note A = Sub_InverseError_iff [where key = pk35 and a = 58 and b = 154, OF h, THEN conjunct1]
  note B = Sub_InverseError_iff [where key = pk35 and a = 58 and b = 15, OF h,
      THEN conjunct2, THEN conjunct1]
  show ?thesis by (rule conjI [OF h conjI [OF A conjI [OF B conjI [OF c1 c2]]]])
qed

text \<open>
  C6. Key generation: on primes \<open>p\<close> and \<open>q\<close>, \<^verbatim>\<open>GenKeypair\<close> computes \<open>n = p\<cdot>q\<close>,
  \<open>h = lcm (p - 1) (q - 1)\<close> and the inverse \<open>u\<close> of \<open>L(g\<^sup>h mod n\<^sup>2, n)\<close> modulo \<open>n\<close> for
  \<open>g = n + 1\<close>; it returns the key with \<open>n\<close>, \<open>n\<^sup>2\<close>, \<open>g\<close>, \<open>h\<close> and \<open>u\<close> when the inverse
  exists, and then \<open>u\<close> is in \<open>[0, n)\<close> and is that inverse; otherwise it aborts with the
  error and returns no key.
\<close>

theorem GenKeypair_algorithm:
  assumes "is_prime (P inst)" "is_prime (Q inst)"
  shows "(let n = P inst * Q inst; h = lcm (P inst - 1) (Q inst - 1)
          in GenKeypair inst =
            (case rev_big (l (pow (n + 1) h (n\<^sup>2)) n) n of
               Inl err \<Rightarrow> Inl err
             | Inr u \<Rightarrow> Inr \<lparr>PublicKey = \<lparr>P_n = n, P_nn = n\<^sup>2, P_g = n + 1\<rparr>,
                               P_h = h, P_u = u\<rparr>))
    \<and> (\<forall>sk. GenKeypair inst = Inr sk \<longrightarrow>
          0 \<le> P_u sk \<and> P_u sk < P_n (PublicKey sk)
          \<and> (l (pow (P_g (PublicKey sk)) (P_h sk) (P_nn (PublicKey sk))) (P_n (PublicKey sk))
               * P_u sk) mod P_n (PublicKey sk) = 1)
    \<and> (GenKeypair inst = Inl InverseError \<or> (\<exists>sk. GenKeypair inst = Inr sk))"
proof -
  let ?n = "P inst * Q inst"
  have p: "1 < P inst" and q: "1 < Q inst" using assms by (simp_all add: is_prime_gt1)
  then have n1: "1 < ?n" by (metis less_1_mult)
  have h: "lcm_big (P inst - 1) (Q inst - 1) = lcm (P inst - 1) (Q inst - 1)"
    using p q by (intro lcm_big_eq_lcm) simp_all
  have a1: "(let n = P inst * Q inst; h = lcm (P inst - 1) (Q inst - 1)
          in GenKeypair inst =
            (case rev_big (l (pow (n + 1) h (n\<^sup>2)) n) n of
               Inl err \<Rightarrow> Inl err
             | Inr u \<Rightarrow> Inr \<lparr>PublicKey = \<lparr>P_n = n, P_nn = n\<^sup>2, P_g = n + 1\<rparr>,
                               P_h = h, P_u = u\<rparr>))"
    by (simp add: GenKeypair_def Let_def square_def inc_big_def dec_def h power2_eq_square
        split: sum.splits)
  have a2: "0 \<le> P_u sk \<and> P_u sk < P_n (PublicKey sk)
          \<and> (l (pow (P_g (PublicKey sk)) (P_h sk) (P_nn (PublicKey sk))) (P_n (PublicKey sk))
               * P_u sk) mod P_n (PublicKey sk) = 1" if "GenKeypair inst = Inr sk" for sk
  proof -
    note k = GenKeypair_Inr [OF that]
    from rev_big_sound [OF k(3) n1] show ?thesis by (simp add: k(1,2))
  qed
  have a3: "GenKeypair inst = Inl InverseError \<or> (\<exists>sk. GenKeypair inst = Inr sk)"
    by (auto simp: GenKeypair_def Let_def rev_big_def split: sum.splits prod.splits)
  from a1 a2 a3 show ?thesis by blast
qed

theorem GenKeypair_algorithm_witness:
  "is_prime (P inst35) \<and> is_prime (Q inst35)
   \<and> GenKeypair inst35 = Inr \<lparr>PublicKey = \<lparr>P_n = 15, P_nn = 225, P_g = 16\<rparr>, P_h = 4, P_u = 4\<rparr>
   \<and> (let n = P inst35 * Q inst35; h = lcm (P inst35 - 1) (Q inst35 - 1)
          in GenKeypair inst35 =
            (case rev_big (l (pow (n + 1) h (n\<^sup>2)) n) n of
               Inl err \<Rightarrow> Inl err
             | Inr u \<Rightarrow> Inr \<lparr>PublicKey = \<lparr>P_n = n, P_nn = n\<^sup>2, P_g = n + 1\<rparr>,
                               P_h = h, P_u = u\<rparr>))"
proof -
  have h: "is_prime (P inst35)" "is_prime (Q inst35)"
    using is_prime_3 is_prime_5 by (simp_all add: inst35_def)
  have "GenKeypair inst35 = Inr \<lparr>PublicKey = \<lparr>P_n = 15, P_nn = 225, P_g = 16\<rparr>, P_h = 4, P_u = 4\<rparr>"
    using GenKeypair_inst35 by (simp add: sk35_def pk35_def)
  with GenKeypair_algorithm [OF h] h show ?thesis by blast
qed

text \<open>
  C8. Default construction: the default key size is 128 and the default constructor is
  the general one at 128 bits; when \<^verbatim>\<open>rand.Prime\<close> returns numbers of the requested bit
  length (its contract) and the key size is at least 2, each of the two stored primes has
  exactly the configured bit length, and their product \<open>n\<close> has more bits than that.
\<close>

theorem constructors_bit_length:
  assumes "\<forall>rd bits p rd'. Prime rd bits = (Inr p, rd') \<longrightarrow> int (BitLen p) = bits"
    and "2 \<le> keySize"
  shows "defaultKeySize = 128
    \<and> GetDefaultInstance Prime Reader = GetInstance Prime Reader 128
    \<and> (\<forall>inst. GetInstance Prime random keySize = Inr inst \<longrightarrow>
          int (BitLen (P inst)) = keySize \<and> int (BitLen (Q inst)) = keySize
          \<and> keySize < int (BitLen (P inst * Q inst)))
    \<and> (\<forall>inst. GetDefaultInstance Prime Reader = Inr inst \<longrightarrow>
          BitLen (P inst) = 128 \<and> BitLen (Q inst) = 128 \<and> 128 < BitLen (P inst * Q inst))"
proof -
  have gen: "int (BitLen (P inst)) = k \<and> int (BitLen (Q inst)) = k
        \<and> k < int (BitLen (P inst * Q inst))"
    if "GetInstance Prime rd k = Inr inst" "2 \<le> k" for rd k inst
  proof -
    from GetInstance_Inr [OF that(1)] obtain rd1 rd2 where
      "Prime rd k = (Inr (P inst), rd1)" "Prime rd1 k = (Inr (Q inst), rd2)" by blast
    with assms(1) have b: "int (BitLen (P inst)) = k" "int (BitLen (Q inst)) = k" by blast+
    from BitLen_mult [OF b that(2)] b show ?thesis by simp
  qed
  have d: "GetDefaultInstance Prime Reader = GetInstance Prime Reader 128"
    by (simp add: GetDefaultInstance_GetInstance defaultKeySize_def)
  have def: "BitLen (P inst) = 128 \<and> BitLen (Q inst) = 128 \<and> 128 < BitLen (P inst * Q inst)"
    if "GetDefaultInstance Prime Reader = Inr inst" for inst
    using gen [of Reader 128 inst] that d by simp
  show ?thesis using gen [of random keySize] assms(2) d def
    by (simp add: defaultKeySize_def)
qed

theorem constructors_bit_length_witness:
  "(2::int) \<le> 3
   \<and> GetInstance replay_Prime [5, 7] 3 = Inr \<lparr>P = 5, Q = 7, randomReader = []\<rparr>
   \<and> int (BitLen 5) = 3 \<and> int (BitLen 7) = 3 \<and> 3 < int (BitLen (5 * 7))"
proof -
  have k: "(2::int) \<le> 3" by simp
  from constructors_bit_length [OF replay_Prime_contract k, of "[]" "[5, 7]"]
  have "\<forall>inst. GetInstance replay_Prime [5, 7] 3 = Inr inst \<longrightarrow>
          int (BitLen (P inst)) = 3 \<and> int (BitLen (Q inst)) = 3
          \<and> 3 < int (BitLen (P inst * Q inst))" by blast
  from this [rule_format, OF GetInstance_replay_5_7]
  have "int (BitLen 5) = 3 \<and> int (BitLen 7) = 3 \<and> 3 < int (BitLen (5 * 7))" by simp
  with k GetInstance_replay_5_7 show ?thesis by blast
qed

text \<open>
  C9. One key pair per instance: the constructor draws the two primes and stores them in
  the instance; a call of \<^verbatim>\<open>GenKeypair\<close> writes neither of them, its key is the one the two
  stored primes determine, a second call on the instance returns a key with the same
  \<open>n\<close>, \<open>n\<^sup>2\<close>, \<open>g\<close>, \<open>h\<close> and \<open>u\<close> and leaves the first key as it was, and so does every
  later call as long as the two stored integers hold what they held.
\<close>

theorem one_keypair_per_instance:
  assumes "GetInstance_heap Prime random keySize hp = (Inr p, hp0)
           \<or> (keySize = defaultKeySize
               \<and> GetDefaultInstance_heap Prime random hp = (Inr p, hp0))"
    and "GenKeypair_heap p hp0 = (r1, hp1)"
    and "GenKeypair_heap p hp1 = (r2, hp2)"
  shows "GetInstance Prime random keySize = Inr (inst_val hp0 p)
    \<and> inst_val hp1 p = inst_val hp0 p \<and> inst_val hp2 p = inst_val hp0 p
    \<and> map_sum id (key_val hp1) r1 = GenKeypair (inst_val hp0 p)
    \<and> map_sum id (key_val hp2) r2 = map_sum id (key_val hp1) r1
    \<and> map_sum id (key_val hp2) r1 = map_sum id (key_val hp1) r1
    \<and> (\<forall>hpX r hp'. used hp1 \<le> used hpX \<and> cell hpX (P_ptr p) = cell hp1 (P_ptr p)
           \<and> cell hpX (Q_ptr p) = cell hp1 (Q_ptr p) \<and> GenKeypair_heap p hpX = (r, hp')
           \<longrightarrow> map_sum id (key_val hp') r = map_sum id (key_val hp1) r1)"
proof -
  from assms(1) have con: "GetInstance_heap Prime random keySize hp = (Inr p, hp0)"
    by (auto simp: GetDefaultInstance_heap_GetInstance_heap)
  note g = GetInstance_heap_sound [OF con]
  have r1: "r1 = fst (GenKeypair_heap p hp0)" and hp1: "hp1 = snd (GenKeypair_heap p hp0)"
    using assms(2) by simp_all
  have r2: "r2 = fst (GenKeypair_heap p hp1)" and hp2: "hp2 = snd (GenKeypair_heap p hp1)"
    using assms(3) by simp_all
  have t1: "used hp0 \<le> used hp1" unfolding hp1 by (rule GenKeypair_heap_used)
  have b1: "P_ptr p < used hp1" "Q_ptr p < used hp1" using g(2,3) t1 by simp_all
  have i1: "inst_val hp1 p = inst_val hp0 p" unfolding hp1 using g(2,3) by (rule inst_val_frame)
  have i2: "inst_val hp2 p = inst_val hp1 p" unfolding hp2 using b1 by (rule inst_val_frame)
  have v1: "map_sum id (key_val hp1) r1 = GenKeypair (inst_val hp0 p)"
    unfolding r1 hp1 using g(2,3) by (rule GenKeypair_heap_value)
  have v2: "map_sum id (key_val hp2) r2 = GenKeypair (inst_val hp1 p)"
    unfolding r2 hp2 using b1 by (rule GenKeypair_heap_value)
  have k1: "map_sum id (key_val hp2) r1 = map_sum id (key_val hp1) r1"
  proof (cases r1)
    case (Inl e)
    then show ?thesis by simp
  next
    case (Inr k)
    then have "fst (GenKeypair_heap p hp0) = Inr k" by (simp add: r1)
    from GenKeypair_heap_below [OF this] have "key_val hp2 k = key_val hp1 k"
      unfolding hp2 hp1 by (intro key_val_frame) simp_all
    with Inr show ?thesis by simp
  qed
  have x: "map_sum id (key_val hp') r = map_sum id (key_val hp1) r1"
    if "used hp1 \<le> used hpX \<and> cell hpX (P_ptr p) = cell hp1 (P_ptr p)
           \<and> cell hpX (Q_ptr p) = cell hp1 (Q_ptr p) \<and> GenKeypair_heap p hpX = (r, hp')"
    for hpX r hp'
  proof -
    from that b1 have bx: "P_ptr p < used hpX" "Q_ptr p < used hpX" by simp_all
    from that have "inst_val hpX p = inst_val hp1 p" by (simp add: inst_val_def)
    moreover from that have "r = fst (GenKeypair_heap p hpX)" "hp' = snd (GenKeypair_heap p hpX)"
      by simp_all
    ultimately have "map_sum id (key_val hp') r = GenKeypair (inst_val hp1 p)"
      using GenKeypair_heap_value [OF bx] by simp
    then show ?thesis using v1 i1 by simp
  qed
  from g(1) i1 i2 v1 v2 k1 x show ?thesis by (simp only: simp_thms) blast
qed

theorem one_keypair_per_instance_witness:
  "GetInstance_heap replay_Prime [5, 7] 3 heap0 = (Inr inst57, heap57)
   \<and> map_sum id (key_val (snd (GenKeypair_heap inst57 heap57)))
        (fst (GenKeypair_heap inst57 heap57))
      = Inr \<lparr>PublicKey = \<lparr>P_n = 35, P_nn = 1225, P_g = 36\<rparr>, P_h = 12, P_u = 3\<rparr>
   \<and> map_sum id (key_val (snd (GenKeypair_heap inst57 (snd (GenKeypair_heap inst57 heap57)))))
        (fst (GenKeypair_heap inst57 (snd (GenKeypair_heap inst57 heap57))))
      = Inr \<lparr>PublicKey = \<lparr>P_n = 35, P_nn = 1225, P_g = 36\<rparr>, P_h = 12, P_u = 3\<rparr>
   \<and> inst_val (snd (GenKeypair_heap inst57 (snd (GenKeypair_heap inst57 heap57)))) inst57
      = \<lparr>P = 5, Q = 7, randomReader = []\<rparr>"
proof -
  let ?c1 = "GenKeypair_heap inst57 heap57"
  let ?c2 = "GenKeypair_heap inst57 (snd ?c1)"
  have h1: "GetInstance_heap replay_Prime [5, 7] 3 heap0 = (Inr inst57, heap57)
      \<or> ((3::int) = defaultKeySize
          \<and> GetDefaultInstance_heap replay_Prime [5, 7] heap0 = (Inr inst57, heap57))"
    using GetInstance_heap_5_7 by (rule disjI1)
  have h2: "?c1 = (fst ?c1, snd ?c1)" by simp
  have h3: "?c2 = (fst ?c2, snd ?c2)" by simp
  note t = one_keypair_per_instance [OF h1 h2 h3]
  note i = inst_val_57
  from t have "map_sum id (key_val (snd ?c2)) (fst ?c2) = map_sum id (key_val (snd ?c1)) (fst ?c1)"
    and "inst_val (snd ?c2) inst57 = inst_val heap57 inst57" by blast+
  with GetInstance_heap_5_7 GenKeypair_heap_57 i show ?thesis by simp
qed

text \<open>
  C10. Unchecked blinding factor: \<^verbatim>\<open>Encrypt\<close> accepts every drawn \<open>r\<close> without a check; for
  \<open>r = 0\<close> and \<open>n > 1\<close> the factor \<open>r\<^sup>n mod n\<^sup>2\<close> is 0 and the ciphertext is 0 whatever the
  plaintext, so some plaintext in \<open>[0, n)\<close> is not what \<^verbatim>\<open>Decrypt\<close> returns for it.
\<close>

theorem Encrypt_unchecked_blinding:
  assumes "1 < P_n (PublicKey sk)"
  shows "(\<forall>r m. \<exists>c. Encrypt (Inr r) (PublicKey sk) m = Inr c)
    \<and> pow 0 (P_n (PublicKey sk)) (P_nn (PublicKey sk)) = 0
    \<and> (\<forall>m. Encrypt (Inr 0) (PublicKey sk) m = Inr 0)
    \<and> (\<exists>m. 0 \<le> m \<and> m < P_n (PublicKey sk)
          \<and> (\<forall>c. Encrypt (Inr 0) (PublicKey sk) m = Inr c \<longrightarrow> Decrypt sk c \<noteq> m))"
proof -
  let ?pk = "PublicKey sk"
  have a: "\<forall>r m. \<exists>c. Encrypt (Inr r) ?pk m = Inr c" by (simp add: Encrypt_Inr)
  have b: "pow 0 (P_n ?pk) (P_nn ?pk) = 0" using assms by (intro pow_zero_base) simp
  have c: "Encrypt (Inr 0) ?pk m = Inr 0" for m
    by (simp add: Encrypt_Inr b bigMul_def)
  define m where "m = (if Decrypt sk 0 = 0 then 1 else (0::int))"
  have "0 \<le> m" "m < P_n ?pk" "Decrypt sk 0 \<noteq> m" using assms by (auto simp: m_def)
  with c have d: "\<exists>m. 0 \<le> m \<and> m < P_n ?pk
          \<and> (\<forall>c. Encrypt (Inr 0) ?pk m = Inr c \<longrightarrow> Decrypt sk c \<noteq> m)"
    by (intro exI [of _ m]) simp
  from a b c d show ?thesis by blast
qed

theorem Encrypt_unchecked_blinding_witness:
  "1 < P_n (PublicKey sk35)
   \<and> Encrypt (Inr 0) (PublicKey sk35) 2 = Inr 0
   \<and> Encrypt (Inr 0) (PublicKey sk35) 3 = Inr 0
   \<and> (\<exists>m. 0 \<le> m \<and> m < P_n (PublicKey sk35)
          \<and> (\<forall>c. Encrypt (Inr 0) (PublicKey sk35) m = Inr c \<longrightarrow> Decrypt sk35 c \<noteq> m))"
proof -
  have h: "1 < P_n (PublicKey sk35)" by (simp add: PublicKey_sk35)
  from Encrypt_unchecked_blinding [OF h] h show ?thesis by blast
qed

end
